theory Spec2Isabelle
  imports Main "HOL-Library.Word" "HOL-Library.Sublist"
begin

section \<open>Data model\<close>

text \<open>
  The development embeds \<^verbatim>\<open>src/android/hal/StreamDumper.cpp\<close> and
  \<^verbatim>\<open>src/android/hal/AudioDumpManager.cpp\<close>. The target is taken to be LP64:
  \<^verbatim>\<open>size_t\<close> is a 64-bit word, \<^verbatim>\<open>uint32_t\<close> a 32-bit word, and both wrap around.
  \<^verbatim>\<open>ssize_t\<close> results are read with \<open>sint\<close>.
\<close>

type_synonym byte = "8 word"
type_synonym size_t = "64 word"
type_synonym uint32_t = "32 word"
type_synonym ssize_t = int

datatype AudioStreamType = STREAM_OUT | STREAM_IN

text \<open>
  Everything outside the two classes is one explicit \<open>world\<close>: the regular files of the
  file system (path to contents), the directories, the system properties, the local time
  as \<^verbatim>\<open>strftime\<close> renders it, the singleton \<^verbatim>\<open>AudioDumpManager\<close>, and a chronological
  trace of every file-system mutation and of the \<^verbatim>\<open>AUDIO_DUMP_READY\<close> logcat line.
  The calls whose result the source checks can fail; their outcomes are read from
  per-call lists (the head is the outcome of the next call, an exhausted list means
  success). Calls whose result the source ignores (\<^verbatim>\<open>close\<close>, \<^verbatim>\<open>unlink\<close> of an existing
  file, the \<^verbatim>\<open><<\<close> into the queue file) are taken to succeed. Diagnostic log lines other
  than the notification are not part of the model. A stream write reaches the file at
  once: the buffering inside \<^verbatim>\<open>std::filebuf\<close> is not modelled.
\<close>

datatype event =
    EvCreate string
  | EvWrite string "byte list"
  | EvRename string string
  | EvUnlink string
  | EvMkdir string
  | EvQueueAppend string string
  | EvLogcat string

record AudioDumpManager =
  mgrDumpDirectory :: string
  mQueueFilePath :: string
  mCompletedFiles :: "string list"
  mFileCounter :: uint32_t
  mInitialized :: bool

record world =
  files :: "string \<Rightarrow> byte list option"
  dirs :: "string set"
  props :: "string \<Rightarrow> string option"
  clock :: string
  manager :: AudioDumpManager
  trace :: "event list"
  open_ok :: "bool list"
  write_ok :: "bool list"
  flush_ok :: "bool list"
  rename_ok :: "bool list"
  mkdir_ok :: "bool list"
  append_ok :: "bool list"

record ofstream =
  is_open :: bool
  good :: bool
  ofs_path :: string

record StreamDumper =
  mType :: AudioStreamType
  mDumpDirectory :: string
  mTimestamp :: string
  mBaseCounter :: uint32_t
  mFileIndex :: uint32_t
  mFile :: ofstream
  mCurrentFilePath :: string
  mCurrentFilename :: string
  mBuffer :: "byte list"
  mBufferOffset :: size_t
  mCurrentFileSize :: size_t
  mBytesSinceFlush :: size_t
  mTotalBytesWritten :: size_t
  mFileCount :: uint32_t
  mIsValid :: bool

definition BUFFER_SIZE :: size_t where
  "BUFFER_SIZE = 256 * 1024"

definition FLUSH_THRESHOLD :: size_t where
  "FLUSH_THRESHOLD = 10 * 1024 * 1024"

definition MAX_FILE_SIZE :: size_t where
  "MAX_FILE_SIZE = 100 * 1024 * 1024"

definition PROP_STREAMOUT_DUMP :: string where
  "PROP_STREAMOUT_DUMP = ''vendor.streamout.pcm.dump''"

definition PROP_STREAMIN_DUMP :: string where
  "PROP_STREAMIN_DUMP = ''vendor.streamin.pcm.dump''"

definition DEFAULT_DUMP_DIR :: string where
  "DEFAULT_DUMP_DIR = ''/data/vendor/audio_dump/''"

definition QUEUE_FILE_NAME :: string where
  "QUEUE_FILE_NAME = ''.queue''"

section \<open>The environment: outcomes, streams, file system\<close>

definition next_ok :: "bool list \<Rightarrow> bool" where
  "next_ok rs = (case rs of [] \<Rightarrow> True | r # _ \<Rightarrow> r)"

text \<open>
  \<^verbatim>\<open>std::ofstream\<close>: \<^verbatim>\<open>open\<close> on a stream that is already open only sets the fail bit;
  a successful \<^verbatim>\<open>open\<close> with \<^verbatim>\<open>trunc\<close> creates or empties the file and clears the error
  state. \<^verbatim>\<open>write\<close> on a stream that is not good, or not open, transfers nothing.
\<close>

definition closed_stream :: ofstream where
  "closed_stream = \<lparr>is_open = False, good = True, ofs_path = []\<rparr>"

definition ofs_open :: "ofstream \<Rightarrow> string \<Rightarrow> world \<Rightarrow> ofstream \<times> world" where
  "ofs_open f path w =
     (if is_open f then (f\<lparr>good := False\<rparr>, w)
      else if next_ok (open_ok w) then
        (\<lparr>is_open = True, good = True, ofs_path = path\<rparr>,
         w\<lparr>files := (files w)(path \<mapsto> []),
           trace := trace w @ [EvCreate path],
           open_ok := tl (open_ok w)\<rparr>)
      else (f\<lparr>good := False\<rparr>, w\<lparr>open_ok := tl (open_ok w)\<rparr>))"

definition ofs_write :: "ofstream \<Rightarrow> byte list \<Rightarrow> world \<Rightarrow> ofstream \<times> world" where
  "ofs_write f bs w =
     (if \<not> (good f \<and> is_open f) then (f\<lparr>good := False\<rparr>, w)
      else if next_ok (write_ok w) then
        (f, w\<lparr>files := (case files w (ofs_path f) of
                           None \<Rightarrow> files w
                         | Some c \<Rightarrow> (files w)(ofs_path f \<mapsto> c @ bs)),
               trace := trace w @ [EvWrite (ofs_path f) bs],
               write_ok := tl (write_ok w)\<rparr>)
      else (f\<lparr>good := False\<rparr>, w\<lparr>write_ok := tl (write_ok w)\<rparr>))"

definition ofs_flush :: "ofstream \<Rightarrow> world \<Rightarrow> ofstream \<times> world" where
  "ofs_flush f w =
     (if \<not> (good f \<and> is_open f) then (f\<lparr>good := False\<rparr>, w)
      else if next_ok (flush_ok w) then (f, w\<lparr>flush_ok := tl (flush_ok w)\<rparr>)
      else (f\<lparr>good := False\<rparr>, w\<lparr>flush_ok := tl (flush_ok w)\<rparr>))"

definition ofs_close :: "ofstream \<Rightarrow> ofstream" where
  "ofs_close f = (if is_open f then f\<lparr>is_open := False\<rparr> else f\<lparr>good := False\<rparr>)"

text \<open>\<^verbatim>\<open>rename(2)\<close> fails when the source does not exist; \<^verbatim>\<open>unlink(2)\<close> of a missing
  path changes nothing.\<close>

definition rename_file :: "string \<Rightarrow> string \<Rightarrow> world \<Rightarrow> bool \<times> world" where
  "rename_file old new w =
     (case files w old of
        None \<Rightarrow> (False, w)
      | Some c \<Rightarrow>
          if next_ok (rename_ok w) then
            (True, w\<lparr>files := ((files w)(old := None))(new \<mapsto> c),
                     trace := trace w @ [EvRename old new],
                     rename_ok := tl (rename_ok w)\<rparr>)
          else (False, w\<lparr>rename_ok := tl (rename_ok w)\<rparr>))"

definition unlink_file :: "string \<Rightarrow> world \<Rightarrow> world" where
  "unlink_file path w =
     (case files w path of
        None \<Rightarrow> w
      | Some c \<Rightarrow> w\<lparr>files := (files w)(path := None), trace := trace w @ [EvUnlink path]\<rparr>)"

section \<open>AudioDumpManager\<close>

definition AudioDumpManager_ctor :: AudioDumpManager where
  "AudioDumpManager_ctor =
     \<lparr>mgrDumpDirectory = DEFAULT_DUMP_DIR,
      mQueueFilePath = DEFAULT_DUMP_DIR @ QUEUE_FILE_NAME,
      mCompletedFiles = [],
      mFileCounter = 0,
      mInitialized = False\<rparr>"

definition EnsureDumpDirectory :: "world \<Rightarrow> bool \<times> world" where
  "EnsureDumpDirectory w =
     (let dir = mgrDumpDirectory (manager w) in
      if dir \<in> dirs w then (True, w)
      else if files w dir \<noteq> None then (False, w)
      else if next_ok (mkdir_ok w) then
        (True, w\<lparr>dirs := insert dir (dirs w),
                 trace := trace w @ [EvMkdir dir],
                 mkdir_ok := tl (mkdir_ok w)\<rparr>)
      else (False, w\<lparr>mkdir_ok := tl (mkdir_ok w)\<rparr>))"

definition Initialize :: "world \<Rightarrow> bool \<times> world" where
  "Initialize w =
     (if mInitialized (manager w) then (True, w)
      else case EnsureDumpDirectory w of
        (False, w1) \<Rightarrow> (False, w1)
      | (True, w1) \<Rightarrow> (True, w1\<lparr>manager := (manager w1)\<lparr>mInitialized := True\<rparr>\<rparr>))"

definition Shutdown :: "world \<Rightarrow> world" where
  "Shutdown w =
     (if \<not> mInitialized (manager w) then w
      else w\<lparr>manager := (manager w)\<lparr>mCompletedFiles := [], mInitialized := False\<rparr>\<rparr>)"

text \<open>\<^verbatim>\<open>property_get\<close> yields the default for a property that is unset or empty.\<close>

definition property_get :: "world \<Rightarrow> string \<Rightarrow> string \<Rightarrow> string" where
  "property_get w key dflt =
     (case props w key of None \<Rightarrow> dflt | Some v \<Rightarrow> if v = [] then dflt else v)"

definition IsStreamOutDumpEnabled :: "world \<Rightarrow> bool" where
  "IsStreamOutDumpEnabled w = (property_get w PROP_STREAMOUT_DUMP ''0'' = ''1'')"

definition IsStreamInDumpEnabled :: "world \<Rightarrow> bool" where
  "IsStreamInDumpEnabled w = (property_get w PROP_STREAMIN_DUMP ''0'' = ''1'')"

definition AppendToQueueFile :: "string \<Rightarrow> world \<Rightarrow> bool \<times> world" where
  "AppendToQueueFile filename w =
     (let path = mQueueFilePath (manager w) in
      if next_ok (append_ok w) then
        (True, w\<lparr>files := (files w)(path \<mapsto>
                    (case files w path of None \<Rightarrow> [] | Some c \<Rightarrow> c)
                      @ map of_char (filename @ [CHR 0x0A])),
                 trace := trace w @ [EvQueueAppend path filename],
                 append_ok := tl (append_ok w)\<rparr>)
      else (False, w\<lparr>append_ok := tl (append_ok w)\<rparr>))"

definition OnDumpFileCompleted :: "string \<Rightarrow> world \<Rightarrow> world" where
  "OnDumpFileCompleted filename w =
     (let w1 = w\<lparr>manager := (manager w)\<lparr>mCompletedFiles :=
                     mCompletedFiles (manager w) @ [filename]\<rparr>\<rparr>;
          w2 = snd (AppendToQueueFile filename w1)
      in w2\<lparr>trace := trace w2 @ [EvLogcat (''AUDIO_DUMP_READY: '' @ filename)]\<rparr>)"

definition GetNextCounter :: "world \<Rightarrow> uint32_t \<times> world" where
  "GetNextCounter w =
     (mFileCounter (manager w),
      w\<lparr>manager := (manager w)\<lparr>mFileCounter := mFileCounter (manager w) + 1\<rparr>\<rparr>)"

section \<open>StreamDumper\<close>

fun dec :: "nat \<Rightarrow> string" where
  "dec n = (if n < 10 then [''0123456789'' ! n]
            else dec (n div 10) @ [''0123456789'' ! (n mod 10)])"

definition GetStreamTypeString :: "StreamDumper \<Rightarrow> string" where
  "GetStreamTypeString d = (if mType d = STREAM_OUT then ''streamout'' else ''streamin'')"

text \<open>\<^verbatim>\<open>snprintf\<close> into \<^verbatim>\<open>char filename[256]\<close> keeps at most 255 characters.\<close>

definition GenerateFilename :: "StreamDumper \<Rightarrow> bool \<Rightarrow> string" where
  "GenerateFilename d withTmp =
     take 255 (''audio_'' @ GetStreamTypeString d @ ''_'' @ mTimestamp d @ ''_''
               @ dec (unat (mBaseCounter d)) @ ''_'' @ dec (unat (mFileIndex d)) @ ''.''
               @ (if withTmp then ''pcm.tmp'' else ''pcm''))"

definition OpenNewFile :: "StreamDumper \<Rightarrow> world \<Rightarrow> bool \<times> StreamDumper \<times> world" where
  "OpenNewFile d w =
     (let d1 = d\<lparr>mCurrentFilename := GenerateFilename d False\<rparr>;
          tmpFilename = GenerateFilename d1 True;
          d2 = d1\<lparr>mCurrentFilePath := mDumpDirectory d1 @ tmpFilename\<rparr>;
          (f, w1) = ofs_open (mFile d2) (mCurrentFilePath d2) w;
          d3 = d2\<lparr>mFile := f\<rparr>
      in if \<not> is_open (mFile d3) then (False, d3, w1)
         else (True,
               d3\<lparr>mCurrentFileSize := 0,
                  mBytesSinceFlush := 0,
                  mBufferOffset := 0,
                  mFileCount := mFileCount d3 + 1,
                  mFileIndex := mFileIndex d3 + 1\<rparr>,
               w1))"

definition CloseCurrentFile :: "bool \<Rightarrow> StreamDumper \<Rightarrow> world \<Rightarrow> StreamDumper \<times> world" where
  "CloseCurrentFile complete d w =
     (if \<not> is_open (mFile d) then (d, w)
      else
        let d1 = d\<lparr>mFile := ofs_close (mFile d)\<rparr> in
        if complete \<and> mCurrentFileSize d1 > 0 then
          let finalPath = mDumpDirectory d1 @ mCurrentFilename d1;
              (ok, w1) = rename_file (mCurrentFilePath d1) finalPath w
          in if ok then
               (d1\<lparr>mCurrentFilePath := []\<rparr>, OnDumpFileCompleted (mCurrentFilename d1) w1)
             else (d1\<lparr>mCurrentFilePath := []\<rparr>, w1)
        else (d1\<lparr>mCurrentFilePath := []\<rparr>, unlink_file (mCurrentFilePath d1) w))"

definition FlushBuffer :: "StreamDumper \<Rightarrow> world \<Rightarrow> bool \<times> StreamDumper \<times> world" where
  "FlushBuffer d w =
     (if mBufferOffset d = 0 then (True, d, w)
      else if \<not> is_open (mFile d) then (False, d, w)
      else
        let (f, w1) = ofs_write (mFile d) (take (unat (mBufferOffset d)) (mBuffer d)) w;
            d1 = d\<lparr>mFile := f\<rparr>
        in if \<not> good (mFile d1) then (False, d1, w1)
           else (True,
                 d1\<lparr>mCurrentFileSize := mCurrentFileSize d1 + mBufferOffset d1,
                    mTotalBytesWritten := mTotalBytesWritten d1 + mBufferOffset d1,
                    mBytesSinceFlush := mBytesSinceFlush d1 + mBufferOffset d1,
                    mBufferOffset := 0\<rparr>,
                 w1))"

text \<open>\<^verbatim>\<open>memcpy(mBuffer.data() + mBufferOffset, data, bytesToCopy)\<close> on the vector.\<close>

definition memcpy :: "byte list \<Rightarrow> nat \<Rightarrow> byte list \<Rightarrow> nat \<Rightarrow> byte list" where
  "memcpy buf off src n = take off buf @ take n src @ drop (off + n) buf"

text \<open>
  The four blocks of the body of the \<^verbatim>\<open>while (bytesRemaining > 0)\<close> loop of
  \<^verbatim>\<open>WriteData\<close>, in the order of the source: the switch to a new file at the size
  limit, the copy into the buffer, the flush of a full buffer, the periodic flush.
\<close>

definition switch_file_if_full :: "StreamDumper \<Rightarrow> world \<Rightarrow> bool \<times> StreamDumper \<times> world" where
  "switch_file_if_full d w =
     (if mCurrentFileSize d \<ge> MAX_FILE_SIZE then
        (let (dc, wc) = CloseCurrentFile True d w in OpenNewFile dc wc)
      else (True, d, w))"

definition copy_to_buffer :: "StreamDumper \<Rightarrow> byte list \<Rightarrow> size_t \<Rightarrow> StreamDumper" where
  "copy_to_buffer d data bytesToCopy =
     d\<lparr>mBuffer := memcpy (mBuffer d) (unat (mBufferOffset d)) data (unat bytesToCopy),
       mBufferOffset := mBufferOffset d + bytesToCopy\<rparr>"

definition flush_if_buffer_full :: "StreamDumper \<Rightarrow> world \<Rightarrow> bool \<times> StreamDumper \<times> world" where
  "flush_if_buffer_full d w =
     (if mBufferOffset d \<ge> BUFFER_SIZE then FlushBuffer d w else (True, d, w))"

definition periodic_flush :: "StreamDumper \<Rightarrow> world \<Rightarrow> StreamDumper \<times> world" where
  "periodic_flush d w =
     (if mBytesSinceFlush d \<ge> FLUSH_THRESHOLD then
        (let (f, wf) = ofs_flush (mFile d) w
         in (d\<lparr>mFile := f, mBytesSinceFlush := 0\<rparr>, wf))
      else (d, w))"

text \<open>
  One pass through the loop body. \<open>Inl\<close> is one of the two \<^verbatim>\<open>return -1\<close> exits, with
  the state left behind; \<open>Inr\<close> carries the variables into the next pass.
\<close>

definition WriteData_body ::
  "StreamDumper \<Rightarrow> world \<Rightarrow> byte list \<Rightarrow> size_t \<Rightarrow> size_t \<Rightarrow>
     (StreamDumper \<times> world) + (StreamDumper \<times> world \<times> byte list \<times> size_t \<times> size_t)" where
  "WriteData_body d w data bytesRemaining totalWritten =
     (case switch_file_if_full d w of
        (False, d1, w1) \<Rightarrow> Inl (d1\<lparr>mIsValid := False\<rparr>, w1)
      | (True, d1, w1) \<Rightarrow>
          let spaceInBuffer = BUFFER_SIZE - mBufferOffset d1;
              bytesToCopy = min bytesRemaining spaceInBuffer;
              d2 = copy_to_buffer d1 data bytesToCopy
          in case flush_if_buffer_full d2 w1 of
               (False, d3, w3) \<Rightarrow> Inl (d3\<lparr>mIsValid := False\<rparr>, w3)
             | (True, d3, w3) \<Rightarrow>
                 let (d4, w4) = periodic_flush d3 w3
                 in Inr (d4, w4, drop (unat bytesToCopy) data,
                         bytesRemaining - bytesToCopy, totalWritten + bytesToCopy))"

lemma OpenNewFile_offset:
  "OpenNewFile d w = (True, d', w') \<Longrightarrow> mBufferOffset d' = 0"
  by (auto simp: OpenNewFile_def Let_def split: prod.splits if_splits)

lemma FlushBuffer_offset:
  "FlushBuffer d w = (True, d', w') \<Longrightarrow> mBufferOffset d' = 0"
  by (auto simp: FlushBuffer_def Let_def split: prod.splits if_splits)

lemma BUFFER_SIZE_neq0: "BUFFER_SIZE \<noteq> 0"
  by (simp add: BUFFER_SIZE_def)

lemma switch_file_if_full_offset:
  "switch_file_if_full d w = (True, d1, w1) \<Longrightarrow> d1 = d \<or> mBufferOffset d1 = 0"
  by (auto simp: switch_file_if_full_def dest: OpenNewFile_offset split: prod.splits if_splits)

lemma flush_if_buffer_full_offset:
  "flush_if_buffer_full d w = (True, d', w') \<Longrightarrow>
     mBufferOffset d' = (if mBufferOffset d \<ge> BUFFER_SIZE then 0 else mBufferOffset d)"
  by (auto simp: flush_if_buffer_full_def dest: FlushBuffer_offset split: if_splits)

lemma periodic_flush_offset:
  "periodic_flush d w = (d', w') \<Longrightarrow> mBufferOffset d' = mBufferOffset d"
  by (auto simp: periodic_flush_def split: prod.splits if_splits)

lemma copy_shrinks:
  fixes r s :: size_t
  assumes "0 < r" "s \<noteq> 0"
  shows "unat (r - min r s) < unat r"
proof -
  have "0 < min r s" using assms by (simp add: min_def word_greater_zero_iff)
  then have pos: "0 < unat (min r s)" by (simp add: word_less_nat_alt)
  have le: "min r s \<le> r" by simp
  then have "unat (min r s) \<le> unat r" by (simp only: word_le_nat_alt)
  moreover from le have "unat (r - min r s) = unat r - unat (min r s)" by (rule unat_sub)
  ultimately show ?thesis using pos by arith
qed

lemma WriteData_body_decreases:
  assumes "WriteData_body d w data bytesRemaining totalWritten = Inr (d', w', data', rem', tot')"
    and "0 < bytesRemaining"
  shows "unat rem' < unat bytesRemaining \<or>
         (rem' = bytesRemaining \<and> mBufferOffset d = BUFFER_SIZE \<and> mBufferOffset d' \<noteq> BUFFER_SIZE)"
proof -
  from assms(1) obtain d1 w1 d3 w3 where
    sw: "switch_file_if_full d w = (True, d1, w1)" and
    fl: "flush_if_buffer_full
           (copy_to_buffer d1 data (min bytesRemaining (BUFFER_SIZE - mBufferOffset d1))) w1
          = (True, d3, w3)" and
    pf: "periodic_flush d3 w3 = (d', w')" and
    rem: "rem' = bytesRemaining - min bytesRemaining (BUFFER_SIZE - mBufferOffset d1)"
    by (auto simp: WriteData_body_def Let_def split: prod.splits bool.splits)
  show ?thesis
  proof (cases "mBufferOffset d1 = BUFFER_SIZE")
    case False
    then have "BUFFER_SIZE - mBufferOffset d1 \<noteq> 0" by simp
    with assms(2) rem show ?thesis by (simp add: copy_shrinks)
  next
    case True
    with sw have "d1 = d" using switch_file_if_full_offset BUFFER_SIZE_neq0 by fastforce
    moreover from True have "mBufferOffset d' = 0"
      using flush_if_buffer_full_offset [OF fl] periodic_flush_offset [OF pf]
      by (simp add: copy_to_buffer_def)
    ultimately show ?thesis using True rem BUFFER_SIZE_neq0 by simp
  qed
qed

function WriteData_loop ::
  "StreamDumper \<Rightarrow> world \<Rightarrow> byte list \<Rightarrow> size_t \<Rightarrow> size_t \<Rightarrow> ssize_t \<times> StreamDumper \<times> world" where
  "WriteData_loop d w data bytesRemaining totalWritten =
     (if bytesRemaining > 0 then
        (case WriteData_body d w data bytesRemaining totalWritten of
           Inl (d', w') \<Rightarrow> (- 1, d', w')
         | Inr (d', w', data', bytesRemaining', totalWritten') \<Rightarrow>
             WriteData_loop d' w' data' bytesRemaining' totalWritten')
      else (sint totalWritten, d, w))"
  by pat_completeness auto
termination
proof (relation "measures [\<lambda>(d, w, data, r, t). unat r,
                           \<lambda>(d, w, data, r, t). if mBufferOffset d = BUFFER_SIZE then 1 else 0]")
  show "wf (measures [\<lambda>(d, w, data, r, t). unat r,
                      \<lambda>(d, w, data, r, t). if mBufferOffset d = BUFFER_SIZE then 1 else 0])"
    by simp
next
  fix d w data and bytesRemaining totalWritten :: size_t and x2 d' y w' ya data' yb rem' tot'
  assume "0 < bytesRemaining"
    and "WriteData_body d w data bytesRemaining totalWritten = Inr x2"
    and "(d', y) = x2" "(w', ya) = y" "(data', yb) = ya" "(rem', tot') = yb"
  then have "WriteData_body d w data bytesRemaining totalWritten = Inr (d', w', data', rem', tot')"
    by auto
  from WriteData_body_decreases [OF this \<open>0 < bytesRemaining\<close>]
  show "((d', w', data', rem', tot'), d, w, data, bytesRemaining, totalWritten)
        \<in> measures [\<lambda>(d, w, data, r, t). unat r,
                     \<lambda>(d, w, data, r, t). if mBufferOffset d = BUFFER_SIZE then 1 else 0]"
    by auto
qed

declare WriteData_loop.simps [simp del]
declare dec.simps [simp del]

text \<open>
  \<^verbatim>\<open>WriteData(buffer, size)\<close>: \<open>None\<close> is the null pointer, \<open>Some data\<close> a pointer to
  the bytes \<open>data\<close>, of which the call reads the first \<open>sz\<close> (the source's
  \<^verbatim>\<open>size\<close>).
\<close>

definition WriteData ::
  "StreamDumper \<Rightarrow> world \<Rightarrow> byte list option \<Rightarrow> size_t \<Rightarrow> ssize_t \<times> StreamDumper \<times> world" where
  "WriteData d w buffer sz =
     (case buffer of
        None \<Rightarrow> (- 1, d, w)
      | Some data \<Rightarrow>
          if \<not> mIsValid d \<or> sz = 0 then (- 1, d, w)
          else WriteData_loop d w data sz 0)"

definition ForceClose :: "StreamDumper \<Rightarrow> world \<Rightarrow> StreamDumper \<times> world" where
  "ForceClose d w =
     (let (d2, w2) =
            (if is_open (mFile d) then
               (let (d1, w1) =
                      (if mBufferOffset d > 0 then
                         (let (f, wf) = ofs_write (mFile d)
                                          (take (unat (mBufferOffset d)) (mBuffer d)) w
                          in (d\<lparr>mFile := f,
                                mCurrentFileSize := mCurrentFileSize d + mBufferOffset d,
                                mTotalBytesWritten := mTotalBytesWritten d + mBufferOffset d,
                                mBufferOffset := 0\<rparr>, wf))
                       else (d, w))
                in CloseCurrentFile True d1 w1)
             else (d, w))
      in (d2\<lparr>mIsValid := False\<rparr>, w2))"

definition StreamDumper_ctor ::
  "AudioStreamType \<Rightarrow> string \<Rightarrow> string \<Rightarrow> uint32_t \<Rightarrow> world \<Rightarrow> StreamDumper \<times> world" where
  "StreamDumper_ctor type dumpDir timestamp baseCounter w =
     (let d0 = \<lparr>mType = type,
                mDumpDirectory = dumpDir,
                mTimestamp = timestamp,
                mBaseCounter = baseCounter,
                mFileIndex = 0,
                mFile = closed_stream,
                mCurrentFilePath = [],
                mCurrentFilename = [],
                mBuffer = replicate (unat BUFFER_SIZE) 0,
                mBufferOffset = 0,
                mCurrentFileSize = 0,
                mBytesSinceFlush = 0,
                mTotalBytesWritten = 0,
                mFileCount = 0,
                mIsValid = False\<rparr>
      in case OpenNewFile d0 w of
           (True, d1, w1) \<Rightarrow> (d1\<lparr>mIsValid := True\<rparr>, w1)
         | (False, d1, w1) \<Rightarrow> (d1, w1))"

text \<open>
  \<^verbatim>\<open>strftime\<close> into \<^verbatim>\<open>char timestamp[32]\<close>: the rendered local time is read from the
  world, and the array holds at most 31 characters of it.
\<close>

definition strftime :: "world \<Rightarrow> string" where
  "strftime w = take 31 (clock w)"

definition enabled :: "AudioStreamType \<Rightarrow> world \<Rightarrow> bool" where
  "enabled type w =
     (if type = STREAM_OUT then IsStreamOutDumpEnabled w else IsStreamInDumpEnabled w)"

definition CreateStreamDumper :: "AudioStreamType \<Rightarrow> world \<Rightarrow> StreamDumper option \<times> world" where
  "CreateStreamDumper type w =
     (if \<not> enabled type w then (None, w)
      else
        case (if \<not> mInitialized (manager w) then Initialize w else (True, w)) of
             (False, w1) \<Rightarrow> (None, w1)
           | (True, w1) \<Rightarrow>
               let (counter, w2) = GetNextCounter w1;
                   timestamp = strftime w2;
                   (dumper, w3) = StreamDumper_ctor type (mgrDumpDirectory (manager w2))
                                    timestamp counter w2
               in (Some dumper, w3))"

section \<open>Call sequences and sample worlds\<close>



text \<open>A sequence of \<^verbatim>\<open>WriteData\<close> calls, each on a span of \<open>length data\<close> bytes,
  with the results of the calls.\<close>

fun write_all ::
  "byte list list \<Rightarrow> StreamDumper \<Rightarrow> world \<Rightarrow> ssize_t list \<times> StreamDumper \<times> world" where
  "write_all [] d w = ([], d, w)"
| "write_all (data # rest) d w =
     (case WriteData d w (Some data) (of_nat (length data)) of
        (r, d', w') \<Rightarrow> (case write_all rest d' w' of (rs, d'', w'') \<Rightarrow> (r # rs, d'', w'')))"

text \<open>A world right after boot: nothing on disk, no property set, no failure scheduled.\<close>

definition boot_world :: world where
  "boot_world =
     \<lparr>files = Map.empty, dirs = {}, props = Map.empty, clock = ''20240131_235959'',
      manager = AudioDumpManager_ctor, trace = [],
      open_ok = [], write_ok = [], flush_ok = [], rename_ok = [], mkdir_ok = [],
      append_ok = []\<rparr>"

definition streamout_world :: world where
  "streamout_world = boot_world\<lparr>props := [PROP_STREAMOUT_DUMP \<mapsto> ''1'']\<rparr>"

text \<open>The same world, in which the next \<^verbatim>\<open>open\<close> of a stream fails.\<close>

definition open_fails_world :: world where
  "open_fails_world = streamout_world\<lparr>open_ok := [False]\<rparr>"

text \<open>A dumper and a world to run the calls in: the switch is on, the first file open.\<close>

definition sample_dumper :: StreamDumper where
  "sample_dumper =
     fst (StreamDumper_ctor STREAM_OUT DEFAULT_DUMP_DIR ''20240131_235959'' 0 streamout_world)"

definition sample_world :: world where
  "sample_world =
     snd (StreamDumper_ctor STREAM_OUT DEFAULT_DUMP_DIR ''20240131_235959'' 0 streamout_world)"

section \<open>Reading the trace\<close>



fun apply_event :: "event \<Rightarrow> (string \<Rightarrow> byte list option) \<Rightarrow> (string \<Rightarrow> byte list option)" where
  "apply_event (EvCreate p) fs = fs(p \<mapsto> [])"
| "apply_event (EvWrite p bs) fs = (case fs p of None \<Rightarrow> fs | Some c \<Rightarrow> fs(p \<mapsto> c @ bs))"
| "apply_event (EvRename old new) fs =
     (case fs old of None \<Rightarrow> fs | Some c \<Rightarrow> (fs(old := None))(new \<mapsto> c))"
| "apply_event (EvUnlink p) fs = fs(p := None)"
| "apply_event (EvMkdir p) fs = fs"
| "apply_event (EvQueueAppend p name) fs =
     fs(p \<mapsto> (case fs p of None \<Rightarrow> [] | Some c \<Rightarrow> c) @ map of_char (name @ [CHR 0x0A]))"
| "apply_event (EvLogcat line) fs = fs"

definition replay :: "event list \<Rightarrow> (string \<Rightarrow> byte list option) \<Rightarrow> (string \<Rightarrow> byte list option)" where
  "replay es fs = foldl (\<lambda>fs e. apply_event e fs) fs es"


text \<open>The renames and the notifications of a trace, and the file names notified.\<close>

fun is_finalize_event :: "event \<Rightarrow> bool" where
  "is_finalize_event (EvRename old new) = True"
| "is_finalize_event (EvLogcat line) = True"
| "is_finalize_event e = False"



section \<open>Rejected and refused calls\<close>

lemma WriteData_invalid: "\<not> mIsValid d \<Longrightarrow> WriteData d w buffer sz = (- 1, d, w)"
  by (simp add: WriteData_def split: option.splits)

text \<open>
  C10. \<^verbatim>\<open>WriteData\<close> with a null pointer, or with size 0, returns -1 at once and leaves
  the dumper and the world exactly as they were, whatever the state of the dumper.
\<close>

theorem WriteData_null_or_empty:
  "WriteData d w None sz = (- 1, d, w) \<and> WriteData d w buffer 0 = (- 1, d, w)"
  by (simp add: WriteData_def split: option.splits)

theorem WriteData_null_or_empty_witness:
  "WriteData sample_dumper sample_world None 4 = (- 1, sample_dumper, sample_world) \<and>
   WriteData sample_dumper sample_world (Some [1, 2, 3, 4]) 0
     = (- 1, sample_dumper, sample_world)"
  using WriteData_null_or_empty [of sample_dumper sample_world 4 "Some [1, 2, 3, 4]"]
  by simp

section \<open>ForceClose\<close>

lemma CloseCurrentFile_closed:
  "CloseCurrentFile c d w = (d', w') \<Longrightarrow> \<not> is_open (mFile d')"
  by (auto simp: CloseCurrentFile_def Let_def ofs_close_def split: if_splits prod.splits)

lemma ForceClose_closed:
  "ForceClose d w = (d', w') \<Longrightarrow> \<not> is_open (mFile d') \<and> \<not> mIsValid d'"
  by (auto simp: ForceClose_def Let_def split: if_splits prod.splits
      dest: CloseCurrentFile_closed)

lemma ForceClose_noop:
  "\<not> is_open (mFile d) \<Longrightarrow> \<not> mIsValid d \<Longrightarrow> ForceClose d w = (d, w)"
  by (simp add: ForceClose_def)

text \<open>
  C6. From any state of the dumper and of the world, a second \<^verbatim>\<open>ForceClose\<close> changes
  nothing: after the first call no file is open and the dumper is invalid, and on such a
  state \<^verbatim>\<open>ForceClose\<close> returns the dumper and the world (files, manager, trace) as they
  are.
\<close>

theorem ForceClose_idempotent:
  "(let (d', w') = ForceClose d w
    in ForceClose d' w' = (d', w') \<and> \<not> is_open (mFile d') \<and> \<not> mIsValid d')"
  using ForceClose_closed [of d w] ForceClose_noop
  by (auto simp: Let_def split: prod.splits)

text \<open>
  C5. \<^verbatim>\<open>ForceClose\<close> right after the constructor: the manager is untouched (nothing
  queued, nothing counted), the trace gains no rename and no notification, and the file
  system is the one before construction, less the temp path if the constructor opened it.
  So no file of any name is added: the zero-byte temp file is created and unlinked, never
  renamed.
\<close>

theorem ForceClose_after_ctor:
  "(let (d, w1) = StreamDumper_ctor type dir ts c w; (d', w') = ForceClose d w1
    in files w' = (if mIsValid d then (files w)(mCurrentFilePath d := None) else files w)
     \<and> manager w' = manager w
     \<and> trace w' = trace w @ (if mIsValid d
                               then [EvCreate (mCurrentFilePath d), EvUnlink (mCurrentFilePath d)]
                               else [])
     \<and> \<not> mIsValid d' \<and> \<not> is_open (mFile d'))"
  by (simp add: StreamDumper_ctor_def OpenNewFile_def ofs_open_def closed_stream_def Let_def
       ForceClose_def CloseCurrentFile_def ofs_close_def unlink_file_def
      split: prod.splits)

section \<open>CreateStreamDumper\<close>

text \<open>
  C8. When the switch of the requested stream type does not read "1",
  \<^verbatim>\<open>CreateStreamDumper\<close> returns no dumper and the world is unchanged: no directory, no
  file, no counter, no manager state.
\<close>

theorem CreateStreamDumper_disabled:
  "\<not> enabled type w \<Longrightarrow> CreateStreamDumper type w = (None, w)"
  by (simp add: CreateStreamDumper_def)

theorem CreateStreamDumper_disabled_witness:
  "\<not> enabled STREAM_OUT boot_world \<and>
   CreateStreamDumper STREAM_OUT boot_world = (None, boot_world)"
  using CreateStreamDumper_disabled [of STREAM_OUT boot_world]
  by (simp add: enabled_def IsStreamOutDumpEnabled_def property_get_def boot_world_def)

lemma ctor_open_fails:
  "\<not> next_ok (open_ok w) \<Longrightarrow> \<not> mIsValid (fst (StreamDumper_ctor type dir ts c w))"
  by (simp add: StreamDumper_ctor_def OpenNewFile_def ofs_open_def closed_stream_def Let_def
      split: prod.splits)

text \<open>
  C9. With the switch on and the manager initialised (already, or by a successful
  \<^verbatim>\<open>Initialize\<close>), a failing first \<^verbatim>\<open>open\<close> still yields a dumper; that dumper is not
  valid, and every \<^verbatim>\<open>WriteData\<close> on it, in any world, returns -1 and changes neither the
  dumper nor the world.
\<close>

theorem CreateStreamDumper_open_fails:
  assumes "enabled type w"
    and "(if \<not> mInitialized (manager w) then Initialize w else (True, w)) = (True, w1)"
    and "\<not> next_ok (open_ok w1)"
  shows "\<exists>d w'. CreateStreamDumper type w = (Some d, w') \<and> \<not> mIsValid d \<and>
           (\<forall>w'' buffer sz. WriteData d w'' buffer sz = (- 1, d, w''))"
proof -
  obtain counter w2 where g: "GetNextCounter w1 = (counter, w2)"
    by (cases "GetNextCounter w1")
  then have o2: "open_ok w2 = open_ok w1"
    by (auto simp: GetNextCounter_def)
  obtain d w3 where
    c: "StreamDumper_ctor type (mgrDumpDirectory (manager w2)) (strftime w2) counter w2 = (d, w3)"
    by (cases "StreamDumper_ctor type (mgrDumpDirectory (manager w2)) (strftime w2) counter w2")
  have "\<not> mIsValid d"
    using ctor_open_fails [of w2 type "mgrDumpDirectory (manager w2)" "strftime w2" counter]
      c o2 assms(3) by simp
  moreover have "CreateStreamDumper type w = (Some d, w3)"
    using assms(1,2) g c by (simp add: CreateStreamDumper_def)
  ultimately show ?thesis using WriteData_invalid by blast
qed

lemma open_fails_world_enabled: "enabled STREAM_OUT open_fails_world"
  by (simp add: enabled_def IsStreamOutDumpEnabled_def property_get_def open_fails_world_def
      streamout_world_def boot_world_def)

lemma open_fails_world_Initialize:
  "Initialize open_fails_world =
     (True, open_fails_world\<lparr>dirs := {DEFAULT_DUMP_DIR}, trace := [EvMkdir DEFAULT_DUMP_DIR],
              mkdir_ok := [], manager := AudioDumpManager_ctor\<lparr>mInitialized := True\<rparr>\<rparr>)"
  by (simp add: Initialize_def EnsureDumpDirectory_def open_fails_world_def
      streamout_world_def boot_world_def AudioDumpManager_ctor_def next_ok_def Let_def)

theorem CreateStreamDumper_open_fails_witness:
  "enabled STREAM_OUT open_fails_world \<and>
   (if \<not> mInitialized (manager open_fails_world) then Initialize open_fails_world
    else (True, open_fails_world)) = (True, snd (Initialize open_fails_world)) \<and>
   \<not> next_ok (open_ok (snd (Initialize open_fails_world))) \<and>
   (\<exists>d w'. CreateStreamDumper STREAM_OUT open_fails_world = (Some d, w') \<and> \<not> mIsValid d \<and>
           (\<forall>w'' buffer sz. WriteData d w'' buffer sz = (- 1, d, w'')))"
proof -
  have a: "enabled STREAM_OUT open_fails_world"
    by (rule open_fails_world_enabled)
  have b: "(if \<not> mInitialized (manager open_fails_world) then Initialize open_fails_world
            else (True, open_fails_world)) = (True, snd (Initialize open_fails_world))"
    by (simp add: open_fails_world_Initialize)
       (simp add: open_fails_world_def streamout_world_def boot_world_def
          AudioDumpManager_ctor_def)
  have c: "\<not> next_ok (open_ok (snd (Initialize open_fails_world)))"
    by (simp add: open_fails_world_Initialize)
       (simp add: open_fails_world_def next_ok_def)
  from CreateStreamDumper_open_fails [OF a b c] a b c show ?thesis by blast
qed

section \<open>File names\<close>

lemma dec_length: "0 < k \<Longrightarrow> n < 10 ^ k \<Longrightarrow> length (dec n) \<le> k"
proof (induction k arbitrary: n)
  case 0 then show ?case by simp
next
  case (Suc k)
  show ?case
  proof (cases "n < 10")
    case True then show ?thesis by (subst dec.simps) simp
  next
    case False
    with Suc.prems have k: "0 < k" by (cases k) auto
    from Suc.prems have "n div 10 < 10 ^ k" by (simp add: less_mult_imp_div_less mult.commute)
    from Suc.IH [OF k this] False show ?thesis by (subst dec.simps) simp
  qed
qed

lemma dec_u32_length: "length (dec (unat (x :: uint32_t))) \<le> 10"
proof -
  have "unat x < 2 ^ 32" using unsigned_less [of x, where ?'a = nat] by simp
  then have "unat x < 10 ^ 10" by simp
  then show ?thesis by (intro dec_length) simp_all
qed

definition name_body :: "StreamDumper \<Rightarrow> string" where
  "name_body d = ''audio_'' @ GetStreamTypeString d @ ''_'' @ mTimestamp d @ ''_''
               @ dec (unat (mBaseCounter d)) @ ''_'' @ dec (unat (mFileIndex d)) @ ''.pcm''"

lemma GenerateFilename_fits:
  assumes "length (mTimestamp d) \<le> 209"
  shows "GenerateFilename d False = name_body d"
    and "GenerateFilename d True = name_body d @ ''.tmp''"
proof -
  have "length (GetStreamTypeString d) \<le> 9" by (simp add: GetStreamTypeString_def)
  with assms dec_u32_length [of "mBaseCounter d"] dec_u32_length [of "mFileIndex d"]
  have "length (name_body d @ ''.tmp'') \<le> 255" by (simp add: name_body_def)
  then show "GenerateFilename d False = name_body d" "GenerateFilename d True = name_body d @ ''.tmp''"
    by (simp_all add: GenerateFilename_def name_body_def)
qed








lemma replay_Nil [simp]: "replay [] fs = fs"
  by (simp add: replay_def)

lemma replay_single [simp]: "replay [e] fs = apply_event e fs"
  by (simp add: replay_def)




































section \<open>Temp names while writing, final names by rename\<close>

lemmas ctor_simps = StreamDumper_ctor_def OpenNewFile_def ofs_open_def closed_stream_def Let_def
  GenerateFilename_def GetStreamTypeString_def streamout_world_def boot_world_def next_ok_def
  DEFAULT_DUMP_DIR_def AudioDumpManager_ctor_def QUEUE_FILE_NAME_def PROP_STREAMOUT_DUMP_def

lemma dec_digits: "dec 0 = ''0''" "dec 1 = ''1''" "dec 2 = ''2''"
  by (simp_all add: dec.simps)

lemmas write_simps = WriteData_def WriteData_loop.simps WriteData_body_def switch_file_if_full_def
  copy_to_buffer_def flush_if_buffer_full_def periodic_flush_def memcpy_def
  BUFFER_SIZE_def MAX_FILE_SIZE_def FLUSH_THRESHOLD_def





lemma sample_ctor:
  "StreamDumper_ctor STREAM_OUT DEFAULT_DUMP_DIR ''20240131_235959'' 0 streamout_world
     = (sample_dumper, sample_world)"
  by (simp add: sample_dumper_def sample_world_def)



section \<open>One notification for each rename\<close>





























section \<open>The byte counter\<close>

definition unflushed_ok :: "StreamDumper \<Rightarrow> bool" where
  "unflushed_ok d \<longleftrightarrow>
     mBufferOffset d < BUFFER_SIZE \<and>
     (MAX_FILE_SIZE \<le> mCurrentFileSize d \<longrightarrow> mBufferOffset d = 0) \<and>
     (mIsValid d \<longrightarrow> is_open (mFile d)) \<and>
     (\<not> is_open (mFile d) \<longrightarrow> mBufferOffset d = 0)"

definition accepted :: "StreamDumper \<Rightarrow> size_t" where
  "accepted d = mTotalBytesWritten d + mBufferOffset d"

lemma MAX_FILE_SIZE_pos: "0 < MAX_FILE_SIZE"
  by (simp add: MAX_FILE_SIZE_def)

lemma BUFFER_SIZE_pos: "0 < BUFFER_SIZE"
  by (simp add: BUFFER_SIZE_def)

lemma switch_accepted:
  assumes "unflushed_ok d" "is_open (mFile d)" "switch_file_if_full d w = (True, d1, w1)"
  shows "mBufferOffset d1 < BUFFER_SIZE \<and> mCurrentFileSize d1 < MAX_FILE_SIZE \<and>
         is_open (mFile d1) \<and> accepted d1 = accepted d \<and> mIsValid d1 = mIsValid d"
proof (cases "MAX_FILE_SIZE \<le> mCurrentFileSize d")
  case False
  with assms show ?thesis by (auto simp: switch_file_if_full_def unflushed_ok_def)
next
  case True
  with assms(1) have off: "mBufferOffset d = 0" by (simp add: unflushed_ok_def)
  obtain dc wc where c: "CloseCurrentFile True d w = (dc, wc)"
    by (cases "CloseCurrentFile True d w")
  then have dc: "mTotalBytesWritten dc = mTotalBytesWritten d" "mIsValid dc = mIsValid d"
    by (auto simp: CloseCurrentFile_def Let_def split: if_splits prod.splits)
  from assms(3) True c have o: "OpenNewFile dc wc = (True, d1, w1)"
    by (simp add: switch_file_if_full_def)
  then have "mBufferOffset d1 = 0" "mCurrentFileSize d1 = 0" "is_open (mFile d1)"
    "mTotalBytesWritten d1 = mTotalBytesWritten dc" "mIsValid d1 = mIsValid dc"
    by (auto simp: OpenNewFile_def Let_def split: if_splits prod.splits)
  with dc off show ?thesis
    by (simp add: accepted_def MAX_FILE_SIZE_pos BUFFER_SIZE_pos)
qed

lemma flush_accepted:
  assumes "is_open (mFile d)" "flush_if_buffer_full d w = (True, d', w')"
  shows "mBufferOffset d' < BUFFER_SIZE \<and> is_open (mFile d') \<and> accepted d' = accepted d \<and>
         mIsValid d' = mIsValid d \<and>
         (mBufferOffset d' = 0 \<or> mCurrentFileSize d' = mCurrentFileSize d)"
  using assms
  by (auto simp: flush_if_buffer_full_def FlushBuffer_def Let_def accepted_def ofs_write_def
      BUFFER_SIZE_pos BUFFER_SIZE_neq0 split: if_splits prod.splits)

lemma periodic_accepted:
  assumes "periodic_flush d w = (d', w')"
  shows "mBufferOffset d' = mBufferOffset d \<and> is_open (mFile d') = is_open (mFile d) \<and>
         accepted d' = accepted d \<and> mIsValid d' = mIsValid d \<and>
         mCurrentFileSize d' = mCurrentFileSize d"
  using assms
  by (auto simp: periodic_flush_def accepted_def ofs_flush_def split: if_splits prod.splits)

lemma WriteData_body_accepted:
  assumes "unflushed_ok d" "is_open (mFile d)"
    and "WriteData_body d w data r t = Inr (d', w', data', r', t')"
  shows "unflushed_ok d' \<and> is_open (mFile d') \<and> mIsValid d' = mIsValid d \<and>
         accepted d' + r' = accepted d + r"
proof -
  from assms(3) obtain d1 w1 d3 w3 where
    sw: "switch_file_if_full d w = (True, d1, w1)" and
    fl: "flush_if_buffer_full
           (copy_to_buffer d1 data (min r (BUFFER_SIZE - mBufferOffset d1))) w1
          = (True, d3, w3)" and
    pf: "periodic_flush d3 w3 = (d', w')" and
    rem: "r' = r - min r (BUFFER_SIZE - mBufferOffset d1)"
    by (auto simp: WriteData_body_def Let_def split: prod.splits bool.splits)
  let ?c = "min r (BUFFER_SIZE - mBufferOffset d1)"
  let ?d2 = "copy_to_buffer d1 data ?c"
  note s = switch_accepted [OF assms(1,2) sw]
  have d2: "is_open (mFile ?d2)" "accepted ?d2 = accepted d + ?c" "mIsValid ?d2 = mIsValid d"
    "mCurrentFileSize ?d2 < MAX_FILE_SIZE"
    using s by (simp_all add: copy_to_buffer_def accepted_def)
  note f = flush_accepted [OF d2(1) fl]
  note p = periodic_accepted [OF pf]
  from f p d2 have "unflushed_ok d'"
    by (auto simp: unflushed_ok_def)
  moreover from f p d2 rem have "accepted d' + r' = accepted d + r" by simp
  ultimately show ?thesis using f p d2 by simp
qed

lemma WriteData_loop_accepted:
  "unflushed_ok d \<Longrightarrow> is_open (mFile d) \<Longrightarrow>
   WriteData_loop d w data r t = (res, d', w') \<Longrightarrow> res \<noteq> - 1 \<Longrightarrow>
     unflushed_ok d' \<and> is_open (mFile d') \<and> mIsValid d' = mIsValid d \<and>
     accepted d' = accepted d + r"
proof (induction d w data r t rule: WriteData_loop.induct)
  case (1 d w data r t)
  show ?case
  proof (cases "0 < r")
    case False
    then have "r = 0" by (simp add: word_greater_zero_iff)
    with "1.prems" show ?thesis by (simp add: WriteData_loop.simps)
  next
    case True
    show ?thesis
    proof (cases "WriteData_body d w data r t")
      case (Inl a)
      with True "1.prems" show ?thesis by (auto simp: WriteData_loop.simps split: prod.splits)
    next
      case (Inr b)
      then obtain d1 w1 data1 r1 t1 where b: "b = (d1, w1, data1, r1, t1)" by (cases b) auto
      from Inr b WriteData_body_accepted [OF "1.prems"(1,2)]
      have e1: "unflushed_ok d1" "is_open (mFile d1)" "mIsValid d1 = mIsValid d"
        "accepted d1 + r1 = accepted d + r" by blast+
      from "1.prems"(3) True Inr b have "WriteData_loop d1 w1 data1 r1 t1 = (res, d', w')"
        by (simp add: WriteData_loop.simps)
      from "1.IH" [OF True Inr _ _ _ _ e1(1,2) this "1.prems"(4)] b
      have "unflushed_ok d' \<and> is_open (mFile d') \<and> mIsValid d' = mIsValid d1 \<and>
            accepted d' = accepted d1 + r1" by simp
      with e1 show ?thesis by simp
    qed
  qed
qed

lemma WriteData_accepted:
  assumes "unflushed_ok d" "WriteData d w buffer sz = (res, d', w')" "res \<noteq> - 1"
  shows "unflushed_ok d' \<and> mIsValid d' \<and> accepted d' = accepted d + sz"
proof -
  from assms(2,3) obtain data where b: "buffer = Some data" "mIsValid d" "sz \<noteq> 0"
    "WriteData_loop d w data sz 0 = (res, d', w')"
    by (auto simp: WriteData_def split: option.splits if_splits)
  from assms(1) b(2) have "is_open (mFile d)" by (simp add: unflushed_ok_def)
  from WriteData_loop_accepted [OF assms(1) this b(4) assms(3)] b(2) show ?thesis by simp
qed

lemma write_all_accepted:
  "unflushed_ok d \<Longrightarrow> write_all chunks d w = (rs, d', w') \<Longrightarrow> - 1 \<notin> set rs \<Longrightarrow>
     unflushed_ok d' \<and> accepted d' = accepted d + of_nat (sum_list (map length chunks))"
proof (induction chunks arbitrary: d w rs d' w')
  case Nil
  then show ?case by simp
next
  case (Cons c chunks)
  obtain r d1 w1 where wd: "WriteData d w (Some c) (of_nat (length c)) = (r, d1, w1)"
    by (cases "WriteData d w (Some c) (of_nat (length c))")
  obtain rs1 d2 w2 where wa: "write_all chunks d1 w1 = (rs1, d2, w2)"
    by (cases "write_all chunks d1 w1")
  from Cons.prems(2) wd wa have eq: "rs = r # rs1" "d' = d2" "w' = w2" by simp_all
  with Cons.prems(3) have r: "r \<noteq> - 1" "- 1 \<notin> set rs1" by auto
  from WriteData_accepted [OF Cons.prems(1) wd r(1)]
  have 1: "unflushed_ok d1" "accepted d1 = accepted d + of_nat (length c)" by simp_all
  from Cons.IH [OF 1(1) wa r(2)] 1(2) eq show ?case by simp
qed

lemma ctor_accepted:
  assumes "StreamDumper_ctor type dir ts c w = (d, w')"
  shows "unflushed_ok d \<and> accepted d = 0"
  using assms
  by (auto simp: StreamDumper_ctor_def OpenNewFile_def ofs_open_def closed_stream_def Let_def
      unflushed_ok_def accepted_def BUFFER_SIZE_pos split: if_splits prod.splits)

lemma ForceClose_total:
  assumes "unflushed_ok d" "ForceClose d w = (d', w')"
  shows "mTotalBytesWritten d' = accepted d"
proof -
  have c: "mTotalBytesWritten (fst (CloseCurrentFile b x v)) = mTotalBytesWritten x" for b x v
    by (auto simp: CloseCurrentFile_def Let_def split: if_splits prod.splits)
  show ?thesis
  proof (cases "is_open (mFile d)")
    case False
    with assms show ?thesis by (auto simp: ForceClose_def unflushed_ok_def accepted_def)
  next
    case True
    with assms(2) show ?thesis
      using c by (auto simp: ForceClose_def Let_def accepted_def word_greater_zero_iff
          split: if_splits prod.splits dest!: arg_cong [where f = fst])
  qed
qed

text \<open>
  C3, as amended. \<^verbatim>\<open>mTotalBytesWritten\<close> counts the bytes handed to the file, not the
  bytes accepted: after the constructor and any sequence of \<^verbatim>\<open>WriteData\<close> calls none of
  which returned -1, \<^verbatim>\<open>mTotalBytesWritten\<close> plus the fill of the buffer equals the sum of
  the sizes, and \<^verbatim>\<open>mTotalBytesWritten\<close> alone equals that sum once \<^verbatim>\<open>ForceClose\<close> has
  run. Both equations are in \<^verbatim>\<open>size_t\<close> arithmetic, modulo \<open>2 ^ 64\<close>.
\<close>

theorem total_bytes_written_counts_flushed:
  assumes "StreamDumper_ctor type dir timestamp counter w = (d0, w0)"
    and "write_all chunks d0 w0 = (rs, d1, w1)"
    and "- 1 \<notin> set rs"
    and "ForceClose d1 w1 = (d2, w2)"
  shows "mTotalBytesWritten d1 + mBufferOffset d1 = of_nat (sum_list (map length chunks)) \<and>
         mTotalBytesWritten d2 = of_nat (sum_list (map length chunks))"
proof -
  from ctor_accepted [OF assms(1)] have 0: "unflushed_ok d0" "accepted d0 = 0" by simp_all
  from write_all_accepted [OF 0(1) assms(2,3)] 0(2)
  have 1: "unflushed_ok d1" "accepted d1 = of_nat (sum_list (map length chunks))" by simp_all
  from ForceClose_total [OF 1(1) assms(4)] 1(2) show ?thesis by (simp add: accepted_def)
qed


lemma sample_write_3:
  "write_all [[1, 2, 3]] sample_dumper sample_world =
     ([3], sample_dumper\<lparr>mBuffer := 1 # 2 # 3 # replicate 262141 0, mBufferOffset := 3\<rparr>,
      sample_world)"
  by (simp add: sample_dumper_def sample_world_def ctor_simps dec_digits write_simps)

text \<open>
  C3 as stated fails: one successful \<^verbatim>\<open>WriteData\<close> of three bytes on a fresh dumper
  returns 3 and leaves \<^verbatim>\<open>mTotalBytesWritten\<close> at 0, the bytes being in the buffer.
\<close>

theorem total_bytes_written_counterexample:
  "fst (write_all [[1, 2, 3]] sample_dumper sample_world) = [3] \<and>
   mTotalBytesWritten (fst (snd (write_all [[1, 2, 3]] sample_dumper sample_world))) = 0 \<and>
   mTotalBytesWritten (fst (snd (write_all [[1, 2, 3]] sample_dumper sample_world)))
     \<noteq> of_nat (sum_list (map length [[1, 2, 3 :: byte]]))"
  unfolding sample_write_3 by (simp add: sample_dumper_def ctor_simps)

lemma sample_write_3_2:
  "fst (write_all [[1, 2, 3], [4, 5]] sample_dumper sample_world) = [3, 2]"
  by (simp add: sample_dumper_def sample_world_def ctor_simps dec_digits write_simps)

theorem total_bytes_written_counts_flushed_witness:
  "StreamDumper_ctor STREAM_OUT DEFAULT_DUMP_DIR ''20240131_235959'' 0 streamout_world
     = (sample_dumper, sample_world) \<and>
   fst (write_all [[1, 2, 3], [4, 5]] sample_dumper sample_world) = [3, 2] \<and>
   - 1 \<notin> set (fst (write_all [[1, 2, 3], [4, 5]] sample_dumper sample_world)) \<and>
   mTotalBytesWritten (fst (snd (write_all [[1, 2, 3], [4, 5]] sample_dumper sample_world)))
     + mBufferOffset (fst (snd (write_all [[1, 2, 3], [4, 5]] sample_dumper sample_world)))
     = of_nat (sum_list (map length [[1, 2, 3], [4, 5 :: byte]])) \<and>
   mTotalBytesWritten
     (fst (ForceClose (fst (snd (write_all [[1, 2, 3], [4, 5]] sample_dumper sample_world)))
                      (snd (snd (write_all [[1, 2, 3], [4, 5]] sample_dumper sample_world)))))
     = of_nat (sum_list (map length [[1, 2, 3], [4, 5 :: byte]]))"
proof -
  let ?r = "write_all [[1, 2, 3], [4, 5]] sample_dumper sample_world"
  have a: "?r = (fst ?r, fst (snd ?r), snd (snd ?r))" by simp
  have b: "- 1 \<notin> set (fst ?r)" unfolding sample_write_3_2 by simp
  have c: "ForceClose (fst (snd ?r)) (snd (snd ?r))
             = (fst (ForceClose (fst (snd ?r)) (snd (snd ?r))),
                snd (ForceClose (fst (snd ?r)) (snd (snd ?r))))" by simp
  note t = total_bytes_written_counts_flushed [OF sample_ctor a b c]
  show ?thesis
    by (intro conjI sample_ctor sample_write_3_2 b t [THEN conjunct1] t [THEN conjunct2])
qed

section \<open>Filling a file, switching at the size limit\<close>

definition calm :: "world \<Rightarrow> bool" where
  "calm w \<longleftrightarrow> list_all id (open_ok w) \<and> list_all id (write_ok w) \<and>
              list_all id (flush_ok w) \<and> list_all id (rename_ok w)"

definition filling :: "StreamDumper \<Rightarrow> world \<Rightarrow> byte list \<Rightarrow> bool" where
  "filling d w cur \<longleftrightarrow>
     mIsValid d \<and> is_open (mFile d) \<and> good (mFile d) \<and>
     ofs_path (mFile d) = mCurrentFilePath d \<and>
     length (mBuffer d) = unat BUFFER_SIZE \<and>
     unat (mBufferOffset d) < unat BUFFER_SIZE \<and>
     unat BUFFER_SIZE dvd unat (mCurrentFileSize d) \<and>
     unat (mCurrentFileSize d) + unat (mBufferOffset d) = length cur \<and>
     length cur \<le> unat MAX_FILE_SIZE \<and>
     files w (mCurrentFilePath d) = Some (take (unat (mCurrentFileSize d)) cur) \<and>
     take (unat (mBufferOffset d)) (mBuffer d) = drop (unat (mCurrentFileSize d)) cur"

definition grows :: "StreamDumper \<Rightarrow> world \<Rightarrow> StreamDumper \<Rightarrow> world \<Rightarrow> bool" where
  "grows d w d' w' \<longleftrightarrow>
     mType d' = mType d \<and> mDumpDirectory d' = mDumpDirectory d \<and>
     mTimestamp d' = mTimestamp d \<and> mBaseCounter d' = mBaseCounter d \<and>
     mFileIndex d' = mFileIndex d \<and> mCurrentFilePath d' = mCurrentFilePath d \<and>
     mCurrentFilename d' = mCurrentFilename d \<and>
     manager w' = manager w \<and>
     filter is_finalize_event (trace w') = filter is_finalize_event (trace w) \<and>
     (\<forall>p. p \<noteq> mCurrentFilePath d \<longrightarrow> files w' p = files w p)"

lemma grows_refl: "grows d w d w"
  by (simp add: grows_def)

lemma grows_trans: "grows d w d1 w1 \<Longrightarrow> grows d1 w1 d2 w2 \<Longrightarrow> grows d w d2 w2"
  by (simp add: grows_def)

lemma unat_BUFFER_SIZE: "unat BUFFER_SIZE = 262144"
  by (simp add: BUFFER_SIZE_def)

lemma unat_MAX_FILE_SIZE: "unat MAX_FILE_SIZE = 104857600"
  by (simp add: MAX_FILE_SIZE_def)

lemma buffer_divides_limit: "unat BUFFER_SIZE dvd unat MAX_FILE_SIZE"
  by (simp add: unat_BUFFER_SIZE unat_MAX_FILE_SIZE)

lemma next_ok_all: "list_all id rs \<Longrightarrow> next_ok rs"
  by (cases rs) (simp_all add: next_ok_def)

lemma list_all_tl: "list_all id rs \<Longrightarrow> list_all id (tl rs)"
  by (cases rs) simp_all

lemma calm_next:
  assumes "calm w"
  shows "next_ok (open_ok w)" "next_ok (write_ok w)" "next_ok (flush_ok w)" "next_ok (rename_ok w)"
  using assms by (simp_all add: calm_def next_ok_all)

lemma calm_update [simp]:
  "calm (w\<lparr>files := fs\<rparr>) = calm w"
  "calm (w\<lparr>trace := tr\<rparr>) = calm w"
  "calm (w\<lparr>manager := m\<rparr>) = calm w"
  "calm (w\<lparr>append_ok := a\<rparr>) = calm w"
  by (simp_all add: calm_def)

lemma calm_tl:
  assumes "calm w"
  shows "calm (w\<lparr>open_ok := tl (open_ok w)\<rparr>)" "calm (w\<lparr>write_ok := tl (write_ok w)\<rparr>)"
    "calm (w\<lparr>flush_ok := tl (flush_ok w)\<rparr>)" "calm (w\<lparr>rename_ok := tl (rename_ok w)\<rparr>)"
  using assms by (simp_all add: calm_def list_all_tl)

lemma step_up:
  fixes b x y :: nat
  assumes "b dvd x" "b dvd y" "x < y"
  shows "x + b \<le> y"
proof -
  from assms(1,2) obtain i j where "x = b * i" "y = b * j" unfolding dvd_def by blast
  with assms(3) have "i < j" by auto
  then have "b * (i + 1) \<le> b * j" by (intro mult_le_mono2) simp
  with \<open>x = b * i\<close> \<open>y = b * j\<close> show ?thesis by simp
qed

lemma unat_of_nat_small: "n < 2 ^ 64 \<Longrightarrow> unat (of_nat n :: size_t) = n"
  by (simp add: unat_of_nat)

lemma unat_add_small:
  fixes a :: size_t
  assumes "unat a + n < 2 ^ 64"
  shows "unat (a + of_nat n) = unat a + n"
proof -
  from assms have n: "unat (of_nat n :: size_t) = n" by (simp add: unat_of_nat_small)
  with assms have "unat a + unat (of_nat n :: size_t) < 2 ^ LENGTH(64)" by simp
  then have "unat (a + of_nat n) = unat a + unat (of_nat n :: size_t)"
    by (simp only: unat_add_lem)
  with n show ?thesis by simp
qed

lemma unat_min: "unat (min a b) = min (unat a) (unat b)" for a b :: size_t
  by (simp add: min_def word_le_nat_alt)

lemma filling_bounds:
  assumes "filling d w cur"
  shows "unat (mCurrentFileSize d) \<le> length cur" "unat (mBufferOffset d) < 262144"
    "length cur \<le> 104857600" "mBufferOffset d \<le> BUFFER_SIZE"
  using assms
  by (simp_all add: filling_def unat_BUFFER_SIZE unat_MAX_FILE_SIZE word_le_nat_alt)

lemma take_memcpy:
  "off \<le> length buf \<Longrightarrow> c \<le> length src \<Longrightarrow>
     take (off + c) (memcpy buf off src c) = take off buf @ take c src"
  by (simp add: memcpy_def min_absorb2)

lemma length_memcpy:
  "off + c \<le> length buf \<Longrightarrow> c \<le> length src \<Longrightarrow>
     length (memcpy buf off src c) = length buf"
  by (simp add: memcpy_def min_absorb2)

lemma copy_small:
  assumes f: "filling d w cur" and c: "c \<le> length data"
    and small: "unat (mBufferOffset d) + c < unat BUFFER_SIZE"
    and room: "length cur < unat MAX_FILE_SIZE"
  shows "filling (copy_to_buffer d data (of_nat c)) w (cur @ take c data)"
proof -
  let ?off = "unat (mBufferOffset d)" and ?size = "unat (mCurrentFileSize d)"
  note b = filling_bounds [OF f]
  from small have c64: "c < 2 ^ 64" "?off + c < 2 ^ 64" by (simp_all add: unat_BUFFER_SIZE)
  then have uc: "unat (of_nat c :: size_t) = c" by (simp add: unat_of_nat_small)
  have uoff: "unat (mBufferOffset d + of_nat c) = ?off + c"
    using c64(2) by (rule unat_add_small)
  from f have len: "length (mBuffer d) = unat BUFFER_SIZE" "?size + ?off = length cur"
    and tk: "take ?off (mBuffer d) = drop ?size cur"
    and fl: "files w (mCurrentFilePath d) = Some (take ?size cur)"
    and dv: "unat BUFFER_SIZE dvd ?size"
    by (simp_all add: filling_def)
  from room len(2) have "?size < unat MAX_FILE_SIZE" by simp
  from step_up [OF dv buffer_divides_limit this] small len(2)
  have "length cur + c \<le> unat MAX_FILE_SIZE" by simp
  moreover have "take (?off + c) (memcpy (mBuffer d) ?off data c) = drop ?size (cur @ take c data)"
  proof -
    have "take (?off + c) (memcpy (mBuffer d) ?off data c) = take ?off (mBuffer d) @ take c data"
      using len(1) c small by (intro take_memcpy) simp_all
    also have "\<dots> = drop ?size cur @ take c data" by (simp only: tk)
    also have "\<dots> = drop ?size (cur @ take c data)" using b(1) by simp
    finally show ?thesis .
  qed
  moreover have "length (memcpy (mBuffer d) ?off data c) = unat BUFFER_SIZE"
    using length_memcpy [of ?off c "mBuffer d" data] len(1) c small by simp
  ultimately show ?thesis
    using f uc uoff small c b(1) len fl
    by (simp add: filling_def copy_to_buffer_def)
qed


lemma copy_full_flush:
  assumes f: "filling d w cur" and calm: "calm w" and c: "c \<le> length data"
    and full: "unat (mBufferOffset d) + c = unat BUFFER_SIZE"
    and room: "length cur < unat MAX_FILE_SIZE"
  shows "\<exists>d' w'. FlushBuffer (copy_to_buffer d data (of_nat c)) w = (True, d', w') \<and>
           filling d' w' (cur @ take c data) \<and> calm w' \<and> grows d w d' w'"
proof -
  let ?off = "unat (mBufferOffset d)" and ?size = "unat (mCurrentFileSize d)"
  let ?d2 = "copy_to_buffer d data (of_nat c)"
  let ?bs = "take (unat (mBufferOffset ?d2)) (mBuffer ?d2)"
  note b = filling_bounds [OF f]
  from full have c64: "?off + c < 2 ^ 64" by (simp add: unat_BUFFER_SIZE)
  from full have uc: "unat (of_nat c :: size_t) = c"
    by (simp add: unat_of_nat_small unat_BUFFER_SIZE)
  have uoff: "unat (mBufferOffset d + of_nat c) = unat BUFFER_SIZE"
    using unat_add_small [OF c64] full by simp
  then have off2: "mBufferOffset ?d2 = BUFFER_SIZE"
    by (simp add: copy_to_buffer_def word_unat_eq_iff)
  from f have len: "length (mBuffer d) = unat BUFFER_SIZE" "?size + ?off = length cur"
    and tk: "take ?off (mBuffer d) = drop ?size cur"
    and fl: "files w (mCurrentFilePath d) = Some (take ?size cur)"
    and dv: "unat BUFFER_SIZE dvd ?size"
    and st: "mIsValid d" "is_open (mFile d)" "good (mFile d)"
      "ofs_path (mFile d) = mCurrentFilePath d"
    by (simp_all add: filling_def)
  from room len(2) have "?size < unat MAX_FILE_SIZE" by simp
  from step_up [OF dv buffer_divides_limit this]
  have le: "?size + unat BUFFER_SIZE \<le> unat MAX_FILE_SIZE" .
  then have usize: "unat (mCurrentFileSize d + BUFFER_SIZE) = ?size + unat BUFFER_SIZE"
    by (subst unat_add_lem [THEN iffD1]) (simp_all add: unat_MAX_FILE_SIZE)
  have bs: "?bs = drop ?size cur @ take c data"
  proof -
    have "?bs = take (?off + c) (memcpy (mBuffer d) ?off data c)"
      using off2 full uc by (simp add: copy_to_buffer_def)
    also have "\<dots> = take ?off (mBuffer d) @ take c data"
      using len(1) c full by (intro take_memcpy) simp_all
    finally show ?thesis by (simp only: tk)
  qed
  have whole: "take ?size cur @ ?bs = cur @ take c data"
    unfolding bs by simp
  let ?w' = "w\<lparr>files := (files w)(mCurrentFilePath d \<mapsto> take ?size cur @ ?bs),
               trace := trace w @ [EvWrite (mCurrentFilePath d) ?bs],
               write_ok := tl (write_ok w)\<rparr>"
  have wr: "ofs_write (mFile ?d2) ?bs w = (mFile d, ?w')"
    using st fl calm_next(2) [OF calm] by (simp add: ofs_write_def copy_to_buffer_def)
  let ?d' = "?d2\<lparr>mCurrentFileSize := mCurrentFileSize d + BUFFER_SIZE,
                  mTotalBytesWritten := mTotalBytesWritten d + BUFFER_SIZE,
                  mBytesSinceFlush := mBytesSinceFlush d + BUFFER_SIZE,
                  mBufferOffset := 0\<rparr>"
  have fb: "FlushBuffer ?d2 w = (True, ?d', ?w')"
    using wr st off2 BUFFER_SIZE_neq0
    by (simp add: FlushBuffer_def Let_def) (simp add: copy_to_buffer_def)
  have lenbuf: "length (mBuffer ?d2) = unat BUFFER_SIZE"
    using length_memcpy [of ?off c "mBuffer d" data] len(1) c full uc
    by (simp add: copy_to_buffer_def)
  have total: "length (cur @ take c data) = ?size + unat BUFFER_SIZE"
    using len(2) c full by simp
  have F: "mCurrentFileSize ?d' = mCurrentFileSize d + BUFFER_SIZE" "mBufferOffset ?d' = 0"
    "mBuffer ?d' = mBuffer ?d2" "mFile ?d' = mFile d"
    "mCurrentFilePath ?d' = mCurrentFilePath d" "mIsValid ?d' = mIsValid d"
    by (simp_all add: copy_to_buffer_def)
  have "files ?w' (mCurrentFilePath d) = Some (take ?size cur @ ?bs)" by simp
  then have W: "files ?w' (mCurrentFilePath d) = Some (cur @ take c data)"
    by (simp only: whole)
  have T: "take (?size + unat BUFFER_SIZE) (cur @ take c data) = cur @ take c data"
    "drop (?size + unat BUFFER_SIZE) (cur @ take c data) = []"
    using total by (simp_all only: take_all drop_all order_refl)
  have "filling ?d' ?w' (cur @ take c data)"
    unfolding filling_def F usize
  proof (intro conjI)
    show "length (cur @ take c data) \<le> unat MAX_FILE_SIZE"
      using le by (simp only: total)
    show "?size + unat BUFFER_SIZE + unat (0 :: size_t) = length (cur @ take c data)"
      by (simp only: total unat_0 add_0_right)
    show "files ?w' (mCurrentFilePath d) = Some (take (?size + unat BUFFER_SIZE) (cur @ take c data))"
      by (simp only: W T)
    show "take (unat (0 :: size_t)) (mBuffer ?d2) = drop (?size + unat BUFFER_SIZE) (cur @ take c data)"
      by (simp only: T unat_0 take_0)
    show "unat BUFFER_SIZE dvd ?size + unat BUFFER_SIZE" using dv by simp
    show "unat (0 :: size_t) < unat BUFFER_SIZE" by (simp add: unat_BUFFER_SIZE)
  qed (use st lenbuf in simp_all)
  moreover have "calm ?w'" using calm by (simp add: calm_def list_all_tl)
  moreover have "grows d w ?d' ?w'"
    by (simp add: grows_def copy_to_buffer_def)
  ultimately show ?thesis using fb by blast
qed

lemma periodic_flush_filling:
  assumes "filling d w cur" "calm w" "periodic_flush d w = (d', w')"
  shows "filling d' w' cur \<and> calm w' \<and> grows d w d' w'"
proof (cases "FLUSH_THRESHOLD \<le> mBytesSinceFlush d")
  case False
  with assms show ?thesis by (simp add: periodic_flush_def grows_refl)
next
  case True
  from assms(1) have "good (mFile d)" "is_open (mFile d)" by (simp_all add: filling_def)
  with True assms(3) calm_next(3) [OF assms(2)]
  have "d' = d\<lparr>mBytesSinceFlush := 0\<rparr>" "w' = w\<lparr>flush_ok := tl (flush_ok w)\<rparr>"
    by (simp_all add: periodic_flush_def ofs_flush_def)
  with assms(1,2) show ?thesis
    by (simp add: filling_def grows_def calm_def list_all_tl)
qed


lemma unat_sub_small:
  fixes r :: size_t
  assumes "c \<le> unat r"
  shows "unat (r - of_nat c) = unat r - c"
proof -
  have "unat r < 2 ^ 64" using unsigned_less [of r, where ?'a = nat] by simp
  with assms have c: "unat (of_nat c :: size_t) = c" by (simp add: unat_of_nat_small)
  with assms have "(of_nat c :: size_t) \<le> r" by (simp add: word_le_nat_alt)
  then have "unat (r - of_nat c) = unat r - unat (of_nat c :: size_t)" by (rule unat_sub)
  with c show ?thesis by simp
qed

lemma body_after_switch:
  assumes sw: "switch_file_if_full d w = (True, d1, w1)"
    and f: "filling d1 w1 cur" and room: "length cur < unat MAX_FILE_SIZE" and calm: "calm w1"
    and r: "0 < r" "unat r \<le> length data"
  defines "c \<equiv> min (unat r) (unat BUFFER_SIZE - unat (mBufferOffset d1))"
  shows "\<exists>d' w'. WriteData_body d w data r t
                    = Inr (d', w', drop c data, r - of_nat c, t + of_nat c) \<and>
           filling d' w' (cur @ take c data) \<and> calm w' \<and> grows d1 w1 d' w'"
    and "0 < c"
proof -
  let ?off = "unat (mBufferOffset d1)"
  let ?btc = "min r (BUFFER_SIZE - mBufferOffset d1)"
  note b = filling_bounds [OF f]
  from f have offlt: "?off < unat BUFFER_SIZE" by (simp add: filling_def)
  from b(4) have "unat (BUFFER_SIZE - mBufferOffset d1) = unat BUFFER_SIZE - ?off"
    by (rule unat_sub)
  then have ubtc: "unat ?btc = c" by (simp add: unat_min c_def)
  have "?btc = of_nat (unat ?btc)" by simp
  with ubtc have btc: "?btc = of_nat c" by simp
  from r(1) have "0 < unat r" by (simp add: word_less_nat_alt)
  with offlt show cpos: "0 < c" by (simp add: c_def)
  have cle: "c \<le> length data" "?off + c \<le> unat BUFFER_SIZE"
    using r(2) offlt by (simp_all add: c_def)
  let ?d2 = "copy_to_buffer d1 data (of_nat c)"
  have uoff2: "unat (mBufferOffset ?d2) = ?off + c"
    using unat_add_small [of "mBufferOffset d1" c] cle(2)
    by (simp add: copy_to_buffer_def unat_BUFFER_SIZE)
  have "\<exists>d3 w3. flush_if_buffer_full ?d2 w1 = (True, d3, w3) \<and>
           filling d3 w3 (cur @ take c data) \<and> calm w3 \<and> grows d1 w1 d3 w3"
  proof (cases "?off + c < unat BUFFER_SIZE")
    case True
    then have "\<not> BUFFER_SIZE \<le> mBufferOffset ?d2"
      using uoff2 by (simp add: word_le_nat_alt)
    then have "flush_if_buffer_full ?d2 w1 = (True, ?d2, w1)"
      by (simp add: flush_if_buffer_full_def)
    moreover from copy_small [OF f cle(1) True room]
    have "filling ?d2 w1 (cur @ take c data)" .
    moreover have "grows d1 w1 ?d2 w1" by (simp add: grows_def copy_to_buffer_def)
    ultimately show ?thesis using calm by blast
  next
    case False
    with cle(2) have full: "?off + c = unat BUFFER_SIZE" by simp
    then have "BUFFER_SIZE \<le> mBufferOffset ?d2"
      using uoff2 by (simp add: word_le_nat_alt)
    then have "flush_if_buffer_full ?d2 w1 = FlushBuffer ?d2 w1"
      by (simp add: flush_if_buffer_full_def)
    with copy_full_flush [OF f calm cle(1) full room] show ?thesis by simp
  qed
  then obtain d3 w3 where 3: "flush_if_buffer_full ?d2 w1 = (True, d3, w3)"
    "filling d3 w3 (cur @ take c data)" "calm w3" "grows d1 w1 d3 w3" by blast
  obtain d4 w4 where 4: "periodic_flush d3 w3 = (d4, w4)" by (cases "periodic_flush d3 w3")
  from periodic_flush_filling [OF 3(2,3) 4]
  have 5: "filling d4 w4 (cur @ take c data)" "calm w4" "grows d3 w3 d4 w4" by simp_all
  have "WriteData_body d w data r t = Inr (d4, w4, drop c data, r - of_nat c, t + of_nat c)"
    using sw 3(1) 4 ubtc by (simp add: WriteData_body_def Let_def btc)
  with 5 grows_trans [OF 3(4) 5(3)]
  show "\<exists>d' w'. WriteData_body d w data r t
                    = Inr (d', w', drop c data, r - of_nat c, t + of_nat c) \<and>
           filling d' w' (cur @ take c data) \<and> calm w' \<and> grows d1 w1 d' w'"
    by blast
qed


lemma no_switch:
  assumes "filling d w cur" "length cur < unat MAX_FILE_SIZE"
  shows "switch_file_if_full d w = (True, d, w)"
proof -
  from assms have "unat (mCurrentFileSize d) < unat MAX_FILE_SIZE" by (simp add: filling_def)
  then have "\<not> MAX_FILE_SIZE \<le> mCurrentFileSize d" by (simp add: word_le_nat_alt)
  then show ?thesis by (simp add: switch_file_if_full_def)
qed

lemma loop_advance:
  assumes "filling d w cur" "calm w" "unat r \<le> length data" "m \<le> unat r"
    and "length cur + m \<le> unat MAX_FILE_SIZE"
    and "m = unat r \<or> unat BUFFER_SIZE dvd length cur + m"
  shows "\<exists>d' w'. WriteData_loop d w data r t
                    = WriteData_loop d' w' (drop m data) (r - of_nat m) (t + of_nat m) \<and>
           filling d' w' (cur @ take m data) \<and> calm w' \<and> grows d w d' w'"
  using assms
proof (induction m arbitrary: d w cur data r t rule: less_induct)
  case (less m)
  show ?case
  proof (cases "m = 0")
    case True
    with less.prems(1,2) show ?thesis
      by (intro exI [where x = d] exI [where x = w]) (simp add: grows_refl)
  next
    case False
    then have mpos: "0 < m" by simp
    with less.prems(4) have "0 < unat r" by simp
    then have rpos: "0 < r" by (simp add: word_less_nat_alt)
    from mpos less.prems(5) have room: "length cur < unat MAX_FILE_SIZE" by simp
    define c where "c = min (unat r) (unat BUFFER_SIZE - unat (mBufferOffset d))"
    note sw = no_switch [OF less.prems(1) room]
    from body_after_switch(1) [OF sw less.prems(1) room less.prems(2) rpos less.prems(3),
        where t = t]
      body_after_switch(2) [OF sw less.prems(1) room less.prems(2) rpos less.prems(3)]
    obtain d1 w1 where
      body: "WriteData_body d w data r t
               = Inr (d1, w1, drop c data, r - of_nat c, t + of_nat c)"
      and 1: "filling d1 w1 (cur @ take c data)" "calm w1" "grows d w d1 w1"
      and cpos: "0 < c"
      unfolding c_def by blast
    from less.prems(1) have inv: "unat (mCurrentFileSize d) + unat (mBufferOffset d) = length cur"
      "unat BUFFER_SIZE dvd unat (mCurrentFileSize d)"
      "unat (mBufferOffset d) < unat BUFFER_SIZE"
      by (simp_all add: filling_def)
    have cr: "c \<le> unat r" by (simp add: c_def)
    have cm: "c \<le> m"
    proof (cases "m = unat r")
      case True
      with cr show ?thesis by simp
    next
      case False
      with less.prems(6) have "unat BUFFER_SIZE dvd length cur + m" by simp
      with inv(1) [symmetric]
      have "unat BUFFER_SIZE dvd unat (mCurrentFileSize d) + (unat (mBufferOffset d) + m)"
        by (simp only: add.assoc)
      with inv(2) have "unat BUFFER_SIZE dvd unat (mBufferOffset d) + m"
        by (simp add: dvd_add_right_iff)
      with mpos have "unat BUFFER_SIZE \<le> unat (mBufferOffset d) + m"
        by (intro dvd_imp_le) simp_all
      then show ?thesis by (simp add: c_def)
    qed
    have step: "WriteData_loop d w data r t
                  = WriteData_loop d1 w1 (drop c data) (r - of_nat c) (t + of_nat c)"
      using rpos body by (subst WriteData_loop.simps) simp
    have cd: "c \<le> length data" using cr less.prems(3) by simp
    have ur: "unat (r - of_nat c) = unat r - c" using cr by (rule unat_sub_small)
    have p3: "unat (r - of_nat c) \<le> length (drop c data)"
      using ur less.prems(3) by simp
    have p4: "m - c \<le> unat (r - of_nat c)" using ur less.prems(4) by simp
    have p5: "length (cur @ take c data) + (m - c) \<le> unat MAX_FILE_SIZE"
      using cd cm less.prems(5) by simp
    have p6: "m - c = unat (r - of_nat c) \<or>
              unat BUFFER_SIZE dvd length (cur @ take c data) + (m - c)"
      using cd cm ur less.prems(6) by auto
    have "m - c < m" using cpos mpos by simp
    from less.IH [OF this 1(1,2) p3 p4 p5 p6, of "t + of_nat c"]
    obtain d' w' where
      2: "WriteData_loop d1 w1 (drop c data) (r - of_nat c) (t + of_nat c)
            = WriteData_loop d' w' (drop (m - c) (drop c data))
                (r - of_nat c - of_nat (m - c)) (t + of_nat c + of_nat (m - c))"
      "filling d' w' ((cur @ take c data) @ take (m - c) (drop c data))" "calm w'"
      "grows d1 w1 d' w'"
      by blast
    have e1: "drop (m - c) (drop c data) = drop m data" using cm by simp
    have "(of_nat c :: size_t) + of_nat (m - c) = of_nat m"
      using cm by (simp flip: of_nat_add)
    then have e2: "r - of_nat c - of_nat (m - c) = r - of_nat m"
      "t + of_nat c + of_nat (m - c) = t + of_nat m"
      by (simp_all add: algebra_simps)
    have "take m data = take c data @ take (m - c) (drop c data)"
      using cm take_add [of c "m - c" data] by simp
    then have e3: "(cur @ take c data) @ take (m - c) (drop c data) = cur @ take m data"
      by simp
    from 2(1) have "WriteData_loop d w data r t
                      = WriteData_loop d' w' (drop m data) (r - of_nat m) (t + of_nat m)"
      unfolding e1 e2 by (simp only: step)
    moreover from 2(2) have "filling d' w' (cur @ take m data)" by (simp only: e3)
    ultimately show ?thesis
      using 2(3) grows_trans [OF 1(3) 2(4)]
      by (intro exI [where x = d'] exI [where x = w'] conjI)
  qed
qed


definition finalized :: "StreamDumper \<Rightarrow> world \<Rightarrow> byte list \<Rightarrow> world \<Rightarrow> bool" where
  "finalized d w content w' \<longleftrightarrow>
     calm w' \<and>
     manager w' = (manager w)\<lparr>mCompletedFiles :=
                     mCompletedFiles (manager w) @ [mCurrentFilename d]\<rparr> \<and>
     filter is_finalize_event (trace w') =
       filter is_finalize_event (trace w) @
         [EvRename (mCurrentFilePath d) (mDumpDirectory d @ mCurrentFilename d),
          EvLogcat (''AUDIO_DUMP_READY: '' @ mCurrentFilename d)] \<and>
     (\<forall>p. p \<noteq> mQueueFilePath (manager w) \<longrightarrow>
        files w' p = (((files w)(mCurrentFilePath d := None))
                        (mDumpDirectory d @ mCurrentFilename d \<mapsto> content)) p)"

lemma CloseCurrentFile_complete:
  assumes "is_open (mFile d)" "0 < mCurrentFileSize d"
    and "files w (mCurrentFilePath d) = Some content" "calm w"
  shows "\<exists>w'. CloseCurrentFile True d w
                 = (d\<lparr>mFile := ofs_close (mFile d), mCurrentFilePath := []\<rparr>, w') \<and>
              finalized d w content w'"
proof (cases "next_ok (append_ok w)")
  case True
  with assms calm_next(4) [OF assms(4)] show ?thesis
    by (simp add: CloseCurrentFile_def Let_def rename_file_def OnDumpFileCompleted_def
        AppendToQueueFile_def finalized_def calm_def list_all_tl)
next
  case False
  with assms calm_next(4) [OF assms(4)] show ?thesis
    by (simp add: CloseCurrentFile_def Let_def rename_file_def OnDumpFileCompleted_def
        AppendToQueueFile_def finalized_def calm_def list_all_tl)
qed

lemma OpenNewFile_calm:
  assumes "\<not> is_open (mFile d)" "calm w" "length (mBuffer d) = unat BUFFER_SIZE" "mIsValid d"
  defines "name \<equiv> GenerateFilename d False"
  defines "path \<equiv> mDumpDirectory d @ GenerateFilename (d\<lparr>mCurrentFilename := name\<rparr>) True"
  shows "\<exists>d' w'. OpenNewFile d w = (True, d', w') \<and> filling d' w' [] \<and> calm w' \<and>
           mCurrentFilename d' = name \<and> mCurrentFilePath d' = path \<and>
           mFileIndex d' = mFileIndex d + 1 \<and> mType d' = mType d \<and>
           mDumpDirectory d' = mDumpDirectory d \<and> mTimestamp d' = mTimestamp d \<and>
           mBaseCounter d' = mBaseCounter d \<and>
           manager w' = manager w \<and>
           filter is_finalize_event (trace w') = filter is_finalize_event (trace w) \<and>
           files w' = (files w)(path \<mapsto> [])"
  using assms(1-4) calm_next(1) [OF assms(2)]
  by (simp add: OpenNewFile_def ofs_open_def Let_def filling_def name_def path_def
      calm_def list_all_tl unat_BUFFER_SIZE)


definition pcm_name :: "AudioStreamType \<Rightarrow> string \<Rightarrow> uint32_t \<Rightarrow> uint32_t \<Rightarrow> string" where
  "pcm_name type ts c i =
     ''audio_'' @ (if type = STREAM_OUT then ''streamout'' else ''streamin'') @ ''_'' @ ts @ ''_''
       @ dec (unat c) @ ''_'' @ dec (unat i) @ ''.pcm''"

lemma GenerateFilename_pcm:
  assumes "length (mTimestamp d) \<le> 209"
  shows "GenerateFilename d False = pcm_name (mType d) (mTimestamp d) (mBaseCounter d) (mFileIndex d)"
    and "GenerateFilename d True
           = pcm_name (mType d) (mTimestamp d) (mBaseCounter d) (mFileIndex d) @ ''.tmp''"
  using GenerateFilename_fits [OF assms]
  by (simp_all add: name_body_def pcm_name_def GetStreamTypeString_def)

lemma GenerateFilename_eq:
  "length (mTimestamp d) \<le> 209 \<Longrightarrow>
     GenerateFilename d tmp
       = pcm_name (mType d) (mTimestamp d) (mBaseCounter d) (mFileIndex d)
           @ (if tmp then ''.tmp'' else [])"
  by (simp add: GenerateFilename_pcm)

definition at_file ::
  "StreamDumper \<Rightarrow> AudioStreamType \<Rightarrow> string \<Rightarrow> string \<Rightarrow> uint32_t \<Rightarrow> uint32_t \<Rightarrow> bool" where
  "at_file d type dir ts c i \<longleftrightarrow>
     mType d = type \<and> mDumpDirectory d = dir \<and> mTimestamp d = ts \<and> mBaseCounter d = c \<and>
     mFileIndex d = i + 1 \<and> mCurrentFilename d = pcm_name type ts c i \<and>
     mCurrentFilePath d = dir @ pcm_name type ts c i @ ''.tmp''"

lemma grows_at_file: "grows d w d' w' \<Longrightarrow> at_file d type dir ts c i \<Longrightarrow> at_file d' type dir ts c i"
  by (simp add: grows_def at_file_def)

lemma filling_full:
  assumes "filling d w cur" "length cur = unat MAX_FILE_SIZE"
  shows "mBufferOffset d = 0" "mCurrentFileSize d = MAX_FILE_SIZE"
    "files w (mCurrentFilePath d) = Some cur"
proof -
  let ?off = "unat (mBufferOffset d)" and ?size = "unat (mCurrentFileSize d)"
  from assms have inv: "?size + ?off = unat MAX_FILE_SIZE" "unat BUFFER_SIZE dvd ?size"
    "?off < unat BUFFER_SIZE" "files w (mCurrentFilePath d) = Some (take ?size cur)"
    by (simp_all add: filling_def)
  from inv(1,2) buffer_divides_limit have "unat BUFFER_SIZE dvd ?off"
    by (metis dvd_add_right_iff)
  with inv(3) have off: "?off = 0" by (auto dest: dvd_imp_le)
  then show "mBufferOffset d = 0" by (simp add: unat_eq_0)
  from off inv(1) show "mCurrentFileSize d = MAX_FILE_SIZE" by (simp add: word_unat_eq_iff)
  from off inv(1,4) assms(2) show "files w (mCurrentFilePath d) = Some cur" by simp
qed

lemma switch_when_full:
  assumes f: "filling d w cur" and len: "length cur = unat MAX_FILE_SIZE" and calm: "calm w"
    and at: "at_file d type dir ts c i" and fit: "length ts \<le> 209"
  shows "\<exists>d1 w1 wc. switch_file_if_full d w = (True, d1, w1) \<and> finalized d w cur wc \<and>
           filling d1 w1 [] \<and> calm w1 \<and> at_file d1 type dir ts c (i + 1) \<and>
           manager w1 = manager wc \<and>
           filter is_finalize_event (trace w1) = filter is_finalize_event (trace wc) \<and>
           files w1 = (files wc)(dir @ pcm_name type ts c (i + 1) @ ''.tmp'' \<mapsto> [])"
proof -
  note full = filling_full [OF f len]
  from f have st: "is_open (mFile d)" "mIsValid d" "length (mBuffer d) = unat BUFFER_SIZE"
    by (simp_all add: filling_def)
  have pos: "0 < mCurrentFileSize d" by (simp add: full(2) MAX_FILE_SIZE_pos)
  let ?dc = "d\<lparr>mFile := ofs_close (mFile d), mCurrentFilePath := []\<rparr>"
  from CloseCurrentFile_complete [OF st(1) pos full(3) calm] obtain wc where
    c: "CloseCurrentFile True d w = (?dc, wc)" "finalized d w cur wc" by blast
  then have calmc: "calm wc" by (simp add: finalized_def)
  have closed: "\<not> is_open (mFile ?dc)" using st(1) by (simp add: ofs_close_def)
  have fitc: "length (mTimestamp ?dc) \<le> 209" "length (mTimestamp (?dc\<lparr>mCurrentFilename := x\<rparr>)) \<le> 209" for x
    using at fit by (simp_all add: at_file_def)
  from OpenNewFile_calm [OF closed calmc] st(2,3) obtain d1 w1 where
    o: "OpenNewFile ?dc wc = (True, d1, w1)" "filling d1 w1 []" "calm w1"
      "mCurrentFilename d1 = GenerateFilename ?dc False"
      "mCurrentFilePath d1 = mDumpDirectory ?dc @
          GenerateFilename (?dc\<lparr>mCurrentFilename := GenerateFilename ?dc False\<rparr>) True"
      "mFileIndex d1 = mFileIndex ?dc + 1" "mType d1 = mType ?dc"
      "mDumpDirectory d1 = mDumpDirectory ?dc" "mTimestamp d1 = mTimestamp ?dc"
      "mBaseCounter d1 = mBaseCounter ?dc" "manager w1 = manager wc"
      "filter is_finalize_event (trace w1) = filter is_finalize_event (trace wc)"
      "files w1 = (files wc)(mDumpDirectory ?dc @
          GenerateFilename (?dc\<lparr>mCurrentFilename := GenerateFilename ?dc False\<rparr>) True \<mapsto> [])"
    by auto
  have at1: "at_file d1 type dir ts c (i + 1)"
    using o(4-10) at
    by (simp add: GenerateFilename_pcm [OF fitc(1)] GenerateFilename_pcm [OF fitc(2)])
       (simp add: at_file_def)
  have path1: "mDumpDirectory ?dc @
          GenerateFilename (?dc\<lparr>mCurrentFilename := GenerateFilename ?dc False\<rparr>) True
        = dir @ pcm_name type ts c (i + 1) @ ''.tmp''"
    using at by (simp add: GenerateFilename_pcm [OF fitc(2)]) (simp add: at_file_def)
  have "switch_file_if_full d w = (True, d1, w1)"
    using c(1) o(1) by (simp add: switch_file_if_full_def full(2))
  with c(2) o(2,3,11,12) at1 o(13) [unfolded path1] show ?thesis by blast
qed


lemma ForceClose_filling:
  assumes f: "filling d w cur" and ne: "cur \<noteq> []" and calm: "calm w"
  shows "\<exists>d' w'. ForceClose d w = (d', w') \<and> finalized d w cur w' \<and>
           \<not> mIsValid d' \<and> \<not> is_open (mFile d')"
proof -
  let ?off = "unat (mBufferOffset d)" and ?size = "unat (mCurrentFileSize d)"
  from f have st: "is_open (mFile d)" "good (mFile d)" "ofs_path (mFile d) = mCurrentFilePath d"
    and inv: "?size + ?off = length cur" "length cur \<le> unat MAX_FILE_SIZE"
      "files w (mCurrentFilePath d) = Some (take ?size cur)"
      "take ?off (mBuffer d) = drop ?size cur"
    by (simp_all add: filling_def)
  show ?thesis
  proof (cases "0 < mBufferOffset d")
    case False
    then have off: "?off = 0" by (simp add: word_greater_zero_iff)
    with inv ne have "0 < ?size" "files w (mCurrentFilePath d) = Some cur" by simp_all
    then have pos: "0 < mCurrentFileSize d" and fl: "files w (mCurrentFilePath d) = Some cur"
      by (simp_all add: word_less_nat_alt)
    from CloseCurrentFile_complete [OF st(1) pos fl calm] obtain w' where
      c: "CloseCurrentFile True d w
            = (d\<lparr>mFile := ofs_close (mFile d), mCurrentFilePath := []\<rparr>, w')"
        "finalized d w cur w'" by blast
    with False st(1) show ?thesis by (simp add: ForceClose_def Let_def ofs_close_def)
  next
    case True
    let ?bs = "take ?off (mBuffer d)"
    let ?w1 = "w\<lparr>files := (files w)(mCurrentFilePath d \<mapsto> take ?size cur @ ?bs),
                 trace := trace w @ [EvWrite (mCurrentFilePath d) ?bs],
                 write_ok := tl (write_ok w)\<rparr>"
    let ?d1 = "d\<lparr>mFile := mFile d,
                  mCurrentFileSize := mCurrentFileSize d + mBufferOffset d,
                  mTotalBytesWritten := mTotalBytesWritten d + mBufferOffset d,
                  mBufferOffset := 0\<rparr>"
    have wr: "ofs_write (mFile d) ?bs w = (mFile d, ?w1)"
      using st inv(3) calm_next(2) [OF calm] by (simp add: ofs_write_def)
    have "take ?size cur @ ?bs = cur" by (simp only: inv(4) append_take_drop_id)
    then have fl: "files ?w1 (mCurrentFilePath ?d1) = Some cur" by simp
    have "?size + ?off < 2 ^ LENGTH(64)" using inv(1,2) by (simp add: unat_MAX_FILE_SIZE)
    then have "unat (mCurrentFileSize d + mBufferOffset d) = ?size + ?off"
      by (simp only: unat_add_lem)
    with inv(1) ne have pos: "0 < mCurrentFileSize ?d1" by (simp add: word_less_nat_alt)
    have calm1: "calm ?w1" using calm by (simp add: calm_def list_all_tl)
    have op: "is_open (mFile ?d1)" using st(1) by simp
    from CloseCurrentFile_complete [OF op pos fl calm1] obtain w' where
      c: "CloseCurrentFile True ?d1 ?w1
            = (?d1\<lparr>mFile := ofs_close (mFile ?d1), mCurrentFilePath := []\<rparr>, w')"
        "finalized ?d1 ?w1 cur w'" by blast
    have fc: "ForceClose d w
                = (?d1\<lparr>mFile := ofs_close (mFile ?d1), mCurrentFilePath := [],
                        mIsValid := False\<rparr>, w')"
      using True st(1) wr c(1) by (simp add: ForceClose_def Let_def)
    have "finalized d w cur w'"
      using c(2) by (simp add: finalized_def)
    with fc st(1) show ?thesis by (simp add: ofs_close_def)
  qed
qed

lemma ctor_filling:
  assumes "calm w" "length ts \<le> 209"
  shows "\<exists>d0 w0. StreamDumper_ctor type dir ts c w = (d0, w0) \<and> filling d0 w0 [] \<and> calm w0 \<and>
           at_file d0 type dir ts c 0 \<and> manager w0 = manager w \<and>
           filter is_finalize_event (trace w0) = filter is_finalize_event (trace w) \<and>
           files w0 = (files w)(dir @ pcm_name type ts c 0 @ ''.tmp'' \<mapsto> [])"
proof -
  let ?d = "\<lparr>mType = type, mDumpDirectory = dir, mTimestamp = ts, mBaseCounter = c,
              mFileIndex = 0, mFile = closed_stream, mCurrentFilePath = [],
              mCurrentFilename = [], mBuffer = replicate (unat BUFFER_SIZE) 0,
              mBufferOffset = 0, mCurrentFileSize = 0, mBytesSinceFlush = 0,
              mTotalBytesWritten = 0, mFileCount = 0, mIsValid = True\<rparr>"
  have fit: "length (mTimestamp ?d) \<le> 209" "length (mTimestamp (?d\<lparr>mCurrentFilename := x\<rparr>)) \<le> 209" for x
    using assms(2) by simp_all
  have closed: "\<not> is_open (mFile ?d)" by (simp add: closed_stream_def)
  from OpenNewFile_calm [OF closed assms(1)] obtain d1 w1 where
    o: "OpenNewFile ?d w = (True, d1, w1)" "filling d1 w1 []" "calm w1"
      "mCurrentFilename d1 = GenerateFilename ?d False"
      "mCurrentFilePath d1 = mDumpDirectory ?d @
          GenerateFilename (?d\<lparr>mCurrentFilename := GenerateFilename ?d False\<rparr>) True"
      "mFileIndex d1 = mFileIndex ?d + 1" "mType d1 = mType ?d"
      "mDumpDirectory d1 = mDumpDirectory ?d" "mTimestamp d1 = mTimestamp ?d"
      "mBaseCounter d1 = mBaseCounter ?d" "manager w1 = manager w"
      "filter is_finalize_event (trace w1) = filter is_finalize_event (trace w)"
      "files w1 = (files w)(mDumpDirectory ?d @
          GenerateFilename (?d\<lparr>mCurrentFilename := GenerateFilename ?d False\<rparr>) True \<mapsto> [])"
    by auto
  have at1: "at_file d1 type dir ts c 0"
    using o(4-10) assms(2) by (simp add: GenerateFilename_eq at_file_def)
  have path1: "mDumpDirectory ?d @
          GenerateFilename (?d\<lparr>mCurrentFilename := GenerateFilename ?d False\<rparr>) True
        = dir @ pcm_name type ts c 0 @ ''.tmp''"
    using assms(2) by (simp add: GenerateFilename_eq)
  have valid: "mIsValid d1" using o(2) by (simp add: filling_def)
  have same: "OpenNewFile (?d\<lparr>mIsValid := False\<rparr>) w = (True, d1\<lparr>mIsValid := False\<rparr>, w1)"
    using o(1)
    by (auto simp: OpenNewFile_def Let_def GenerateFilename_def GetStreamTypeString_def
        split: prod.splits if_splits)
  have "StreamDumper_ctor type dir ts c w = (d1, w1)"
    using same valid by (simp add: StreamDumper_ctor_def)
  with o(2,3,11,12) at1 o(13) [unfolded path1] show ?thesis by blast
qed


lemma sint_of_nat_small: "n < 2 ^ 63 \<Longrightarrow> sint (of_nat n :: size_t) = int n"
proof -
  assume n: "n < 2 ^ 63"
  have "sint (of_nat n :: size_t) = signed_take_bit 63 (int n)"
    by (simp add: signed_of_nat)
  also have "\<dots> = int n"
  proof (rule signed_take_bit_int_eq_self)
    show "- (2 ^ 63) \<le> int n" by simp
    from n have "int n < int (2 ^ 63)" by (simp only: of_nat_less_iff)
    then show "int n < 2 ^ 63" by simp
  qed
  finally show ?thesis .
qed

lemma loop_finish:
  assumes "filling d w cur" "calm w" "unat r \<le> length data"
    and "length cur + unat r \<le> unat MAX_FILE_SIZE"
  shows "\<exists>d' w'. WriteData_loop d w data r t = (sint (t + r), d', w') \<and>
           filling d' w' (cur @ take (unat r) data) \<and> calm w' \<and> grows d w d' w'"
proof -
  from loop_advance [OF assms(1-3) order_refl assms(4), of t] obtain d' w' where
    1: "WriteData_loop d w data r t
          = WriteData_loop d' w' (drop (unat r) data) (r - of_nat (unat r)) (t + of_nat (unat r))"
    "filling d' w' (cur @ take (unat r) data)" "calm w'" "grows d w d' w'"
    by blast
  have "WriteData_loop d' w' (drop (unat r) data) (r - of_nat (unat r)) (t + of_nat (unat r))
          = (sint (t + r), d', w')"
    by (subst WriteData_loop.simps) simp
  with 1 show ?thesis by (intro exI [where x = d'] exI [where x = w']) simp
qed

lemma loop_finish_after_switch:
  assumes sw: "switch_file_if_full d w = (True, d1, w1)"
    and f: "filling d1 w1 cur" and calm: "calm w1"
    and r: "0 < r" "unat r \<le> length data"
    and fits: "length cur + unat r \<le> unat MAX_FILE_SIZE"
  shows "\<exists>d' w'. WriteData_loop d w data r t = (sint (t + r), d', w') \<and>
           filling d' w' (cur @ take (unat r) data) \<and> calm w' \<and> grows d1 w1 d' w'"
proof -
  define c where "c = min (unat r) (unat BUFFER_SIZE - unat (mBufferOffset d1))"
  from r(1) have "0 < unat r" by (simp add: word_less_nat_alt)
  with fits have room: "length cur < unat MAX_FILE_SIZE" by simp
  from body_after_switch(1) [OF sw f room calm r, where t = t]
  obtain d2 w2 where
    body: "WriteData_body d w data r t
             = Inr (d2, w2, drop c data, r - of_nat c, t + of_nat c)"
    and 2: "filling d2 w2 (cur @ take c data)" "calm w2" "grows d1 w1 d2 w2"
    unfolding c_def by blast
  have cr: "c \<le> unat r" by (simp add: c_def)
  have cd: "c \<le> length data" using cr r(2) by simp
  have ur: "unat (r - of_nat c) = unat r - c" using cr by (rule unat_sub_small)
  have step: "WriteData_loop d w data r t
                = WriteData_loop d2 w2 (drop c data) (r - of_nat c) (t + of_nat c)"
    using r(1) body by (subst WriteData_loop.simps) simp
  have p3: "unat (r - of_nat c) \<le> length (drop c data)" using ur r(2) by simp
  have p4: "length (cur @ take c data) + unat (r - of_nat c) \<le> unat MAX_FILE_SIZE"
    using ur cd cr fits by simp
  from loop_finish [OF 2(1,2) p3 p4, of "t + of_nat c"] obtain d' w' where
    3: "WriteData_loop d2 w2 (drop c data) (r - of_nat c) (t + of_nat c)
          = (sint (t + of_nat c + (r - of_nat c)), d', w')"
    "filling d' w' ((cur @ take c data) @ take (unat (r - of_nat c)) (drop c data))"
    "calm w'" "grows d2 w2 d' w'"
    by blast
  have "take (unat r) data = take c data @ take (unat r - c) (drop c data)"
    using cr take_add [of c "unat r - c" data] by simp
  then have e: "(cur @ take c data) @ take (unat (r - of_nat c)) (drop c data)
                  = cur @ take (unat r) data"
    by (simp add: ur)
  have "WriteData_loop d w data r t = (sint (t + r), d', w')"
    using step 3(1) by simp
  moreover from 3(2) have "filling d' w' (cur @ take (unat r) data)" by (simp only: e)
  ultimately show ?thesis
    using 3(3) grows_trans [OF 2(3) 3(4)]
    by (intro exI [where x = d'] exI [where x = w'] conjI)
qed

lemma WriteData_within:
  assumes f: "filling d w cur" and calm: "calm w" and ne: "data \<noteq> []"
    and fits: "length cur + length data \<le> unat MAX_FILE_SIZE"
  shows "\<exists>d' w'. WriteData d w (Some data) (of_nat (length data)) = (int (length data), d', w') \<and>
           filling d' w' (cur @ data) \<and> calm w' \<and> grows d w d' w'"
proof -
  let ?sz = "of_nat (length data) :: size_t"
  from fits have small: "length data < 2 ^ 63" by (simp add: unat_MAX_FILE_SIZE)
  then have u: "unat ?sz = length data" by (simp add: unat_of_nat_small)
  with ne have nz: "?sz \<noteq> 0" by (metis length_0_conv unat_0)
  from f have valid: "mIsValid d" by (simp add: filling_def)
  from loop_finish [OF f calm, of ?sz data 0] u fits obtain d' w' where
    "WriteData_loop d w data ?sz 0 = (sint ?sz, d', w')"
    "filling d' w' (cur @ data)" "calm w'" "grows d w d' w'"
    by auto
  with valid nz small show ?thesis
    by (intro exI [where x = d'] exI [where x = w'])
       (simp add: WriteData_def sint_of_nat_small)
qed



lemma grows_finalized:
  assumes "grows d w dA wA" "finalized dA wA content wc"
  shows "finalized d w content wc"
proof -
  from assms(1) have g: "mCurrentFilePath dA = mCurrentFilePath d"
    "mCurrentFilename dA = mCurrentFilename d" "mDumpDirectory dA = mDumpDirectory d"
    "manager wA = manager w"
    "filter is_finalize_event (trace wA) = filter is_finalize_event (trace w)"
    "\<And>p. p \<noteq> mCurrentFilePath d \<Longrightarrow> files wA p = files w p"
    by (simp_all add: grows_def)
  have "(((files wA)(mCurrentFilePath d := None))(x \<mapsto> content)) p
          = (((files w)(mCurrentFilePath d := None))(x \<mapsto> content)) p" for x p
    using g(6) by simp
  with assms(2) show ?thesis by (simp add: finalized_def g(1-5))
qed

lemma WriteData_crossing:
  assumes f: "filling d w cur" and calm: "calm w" and at: "at_file d type dir ts c i"
    and fit: "length ts \<le> 209"
    and over: "unat MAX_FILE_SIZE < length cur + length data"
    and under: "length cur + length data \<le> 2 * unat MAX_FILE_SIZE"
  defines "k \<equiv> unat MAX_FILE_SIZE - length cur"
  shows "\<exists>d' w' wc. WriteData d w (Some data) (of_nat (length data))
                        = (int (length data), d', w') \<and>
           finalized d w (cur @ take k data) wc \<and>
           filling d' w' (drop k data) \<and> calm w' \<and> at_file d' type dir ts c (i + 1) \<and>
           manager w' = manager wc \<and>
           filter is_finalize_event (trace w') = filter is_finalize_event (trace wc) \<and>
           (\<forall>p. p \<noteq> dir @ pcm_name type ts c (i + 1) @ ''.tmp'' \<longrightarrow> files w' p = files wc p)"
proof -
  let ?sz = "of_nat (length data) :: size_t"
  note b = filling_bounds [OF f]
  from b(3) have curM: "length cur \<le> unat MAX_FILE_SIZE" by (simp add: unat_MAX_FILE_SIZE)
  from under have small: "length data < 2 ^ 63" by (simp add: unat_MAX_FILE_SIZE)
  then have u: "unat ?sz = length data" by (simp add: unat_of_nat_small)
  from over curM have kd: "k < length data" "length cur + k = unat MAX_FILE_SIZE"
    by (simp_all add: k_def)
  from kd(1) have ne: "data \<noteq> []" by auto
  with u have nz: "?sz \<noteq> 0" by (metis length_0_conv unat_0)
  from f have valid: "mIsValid d" by (simp add: filling_def)
  have a3: "unat ?sz \<le> length data" "k \<le> unat ?sz" using u kd(1) by simp_all
  have a5: "length cur + k \<le> unat MAX_FILE_SIZE" using kd(2) by simp
  have a6: "k = unat ?sz \<or> unat BUFFER_SIZE dvd length cur + k"
    using kd(2) buffer_divides_limit by simp
  from loop_advance [OF f calm a3 a5 a6, of 0] obtain dA wA where
    A: "WriteData_loop d w data ?sz 0
          = WriteData_loop dA wA (drop k data) (?sz - of_nat k) (0 + of_nat k)"
    "filling dA wA (cur @ take k data)" "calm wA" "grows d w dA wA"
    by blast
  have lenA: "length (cur @ take k data) = unat MAX_FILE_SIZE" using kd by simp
  note atA = grows_at_file [OF A(4) at]
  from switch_when_full [OF A(2) lenA A(3) atA fit] obtain d1 w1 wc where
    S: "switch_file_if_full dA wA = (True, d1, w1)" "finalized dA wA (cur @ take k data) wc"
    "filling d1 w1 []" "calm w1" "at_file d1 type dir ts c (i + 1)"
    "manager w1 = manager wc"
    "filter is_finalize_event (trace w1) = filter is_finalize_event (trace wc)"
    "files w1 = (files wc)(dir @ pcm_name type ts c (i + 1) @ ''.tmp'' \<mapsto> [])"
    by blast
  let ?r = "?sz - of_nat k"
  have ur: "unat ?r = length data - k" using unat_sub_small [OF a3(2)] u by simp
  with kd(1) have rpos: "0 < ?r" by (simp add: word_less_nat_alt)
  have r3: "unat ?r \<le> length (drop k data)" using ur by simp
  have r4: "length ([] :: byte list) + unat ?r \<le> unat MAX_FILE_SIZE"
    using ur under kd by simp
  from loop_finish_after_switch [OF S(1,3,4) rpos r3 r4, of "0 + of_nat k"] obtain d' w' where
    B: "WriteData_loop dA wA (drop k data) ?r (0 + of_nat k)
          = (sint (0 + of_nat k + ?r), d', w')"
    "filling d' w' ([] @ take (unat ?r) (drop k data))" "calm w'" "grows d1 w1 d' w'"
    by blast
  have res: "sint (0 + of_nat k + ?r) = int (length data)"
    using small by (simp add: sint_of_nat_small)
  have wd: "WriteData d w (Some data) ?sz = (int (length data), d', w')"
    using valid nz A(1) B(1) res by (simp add: WriteData_def)
  have fB: "filling d' w' (drop k data)" using B(2) ur by simp
  from B(4) have g: "manager w' = manager w1"
    "filter is_finalize_event (trace w') = filter is_finalize_event (trace w1)"
    "\<And>p. p \<noteq> mCurrentFilePath d1 \<Longrightarrow> files w' p = files w1 p"
    by (simp_all add: grows_def)
  from S(5) have p1: "mCurrentFilePath d1 = dir @ pcm_name type ts c (i + 1) @ ''.tmp''"
    by (simp add: at_file_def)
  have fl: "\<forall>p. p \<noteq> dir @ pcm_name type ts c (i + 1) @ ''.tmp'' \<longrightarrow> files w' p = files wc p"
    using g(3) by (simp add: p1 S(8))
  from wd grows_finalized [OF A(4) S(2)] fB B(3) grows_at_file [OF B(4) S(5)]
    g(1) [unfolded S(6)] g(2) [unfolded S(7)] fl
  show ?thesis by (intro exI [where x = d'] exI [where x = w'] exI [where x = wc] conjI)
qed



lemma pcm_name_distinct:
  "pcm_name type ts c 0 \<noteq> pcm_name type ts c 1"
  "dir @ pcm_name type ts c i @ ''.tmp'' \<noteq> dir @ pcm_name type ts c i"
  by (simp_all add: pcm_name_def dec.simps)



lemma streamout_world_calm: "calm streamout_world"
  by (simp add: calm_def streamout_world_def boot_world_def)



section \<open>Three chunks of 40 MiB\<close>

lemma filling_aligned:
  assumes "filling d w cur" "unat BUFFER_SIZE dvd length cur"
  shows "mBufferOffset d = 0" "unat (mCurrentFileSize d) = length cur"
    "files w (mCurrentFilePath d) = Some cur"
proof -
  let ?off = "unat (mBufferOffset d)" and ?size = "unat (mCurrentFileSize d)"
  from assms(1) have inv: "?size + ?off = length cur" "unat BUFFER_SIZE dvd ?size"
    "?off < unat BUFFER_SIZE" "files w (mCurrentFilePath d) = Some (take ?size cur)"
    by (simp_all add: filling_def)
  from inv(1,2) assms(2) have "unat BUFFER_SIZE dvd ?off"
    by (metis dvd_add_right_iff)
  with inv(3) have off: "?off = 0" by (auto dest: dvd_imp_le)
  then show "mBufferOffset d = 0" by (simp add: unat_eq_0)
  from off inv(1) show "?size = length cur" by simp
  with inv(4) show "files w (mCurrentFilePath d) = Some cur" by simp
qed

text \<open>The scenario of three writes of 40 MiB each is stated in this unit.\<close>

definition MiB :: nat where
  "MiB = 1024 * 1024"

lemma three_chunks:
  assumes calm: "calm w" and fit: "length ts \<le> 209"
    and la: "length a = 40 * MiB" and lb: "length b = 40 * MiB" and lc: "length x = 40 * MiB"
    and ctor: "StreamDumper_ctor type dir ts c w = (d0, w0)"
    and wa: "WriteData d0 w0 (Some a) (of_nat (length a)) = (r1, d1, w1)"
    and wb: "WriteData d1 w1 (Some b) (of_nat (length b)) = (r2, d2, w2)"
    and wx: "WriteData d2 w2 (Some x) (of_nat (length x)) = (r3, d3, w3)"
    and fc: "ForceClose d3 w3 = (d4, w4)"
  defines "n0 \<equiv> pcm_name type ts c 0" and "n1 \<equiv> pcm_name type ts c 1"
  shows "r1 = int (40 * MiB) \<and> r2 = int (40 * MiB) \<and> r3 = int (40 * MiB)"
    and "manager w2 = manager w \<and>
         filter is_finalize_event (trace w2) = filter is_finalize_event (trace w) \<and>
         is_open (mFile d2) \<and> mCurrentFilePath d2 = dir @ n0 @ ''.tmp'' \<and>
         files w2 (dir @ n0 @ ''.tmp'') = Some (a @ b) \<and>
         (\<forall>p. p \<noteq> dir @ n0 @ ''.tmp'' \<longrightarrow> files w2 p = files w p) \<and>
         unat (mCurrentFileSize d2) = 80 * MiB \<and> mCurrentFileSize d2 < MAX_FILE_SIZE"
    and "manager w3 = (manager w)\<lparr>mCompletedFiles := mCompletedFiles (manager w) @ [n0]\<rparr> \<and>
         filter is_finalize_event (trace w3) =
           filter is_finalize_event (trace w) @
             [EvRename (dir @ n0 @ ''.tmp'') (dir @ n0), EvLogcat (''AUDIO_DUMP_READY: '' @ n0)] \<and>
         (\<forall>p. p \<noteq> mQueueFilePath (manager w) \<longrightarrow>
            files w3 p =
              (if p = dir @ n1 @ ''.tmp'' then Some (drop (20 * MiB) x)
               else if p = dir @ n0 then Some (a @ b @ take (20 * MiB) x)
               else if p = dir @ n0 @ ''.tmp'' then None
               else files w p)) \<and>
         mIsValid d3 \<and> is_open (mFile d3) \<and> mCurrentFilePath d3 = dir @ n1 @ ''.tmp'' \<and>
         mBufferOffset d3 = 0 \<and> unat (mCurrentFileSize d3) = 20 * MiB"
    and "manager w4 = (manager w)\<lparr>mCompletedFiles := mCompletedFiles (manager w) @ [n0, n1]\<rparr> \<and>
         filter is_finalize_event (trace w4) =
           filter is_finalize_event (trace w) @
             [EvRename (dir @ n0 @ ''.tmp'') (dir @ n0), EvLogcat (''AUDIO_DUMP_READY: '' @ n0),
              EvRename (dir @ n1 @ ''.tmp'') (dir @ n1), EvLogcat (''AUDIO_DUMP_READY: '' @ n1)] \<and>
         (\<forall>p. p \<noteq> mQueueFilePath (manager w) \<longrightarrow>
            files w4 p =
              (if p = dir @ n1 then Some (drop (20 * MiB) x)
               else if p = dir @ n1 @ ''.tmp'' then None
               else if p = dir @ n0 then Some (a @ b @ take (20 * MiB) x)
               else if p = dir @ n0 @ ''.tmp'' then None
               else files w p)) \<and>
         \<not> mIsValid d4 \<and> \<not> is_open (mFile d4)"
proof -
  have M: "unat MAX_FILE_SIZE = 100 * MiB" by (simp add: unat_MAX_FILE_SIZE MiB_def)
  have B: "unat BUFFER_SIZE dvd 20 * MiB" "unat BUFFER_SIZE dvd 40 * MiB"
    "unat BUFFER_SIZE dvd 80 * MiB"
    by (simp_all add: unat_BUFFER_SIZE MiB_def)
  have Mpos: "0 < MiB" by (simp add: MiB_def)
  from ctor_filling [OF calm fit, of type dir c] ctor have
    0: "filling d0 w0 []" "calm w0" "at_file d0 type dir ts c 0" "manager w0 = manager w"
    "filter is_finalize_event (trace w0) = filter is_finalize_event (trace w)"
    "files w0 = (files w)(dir @ n0 @ ''.tmp'' \<mapsto> [])"
    by (auto simp: n0_def)
  have ane: "a \<noteq> []" "b \<noteq> []" using la lb Mpos by auto
  have fa: "length ([] :: byte list) + length a \<le> unat MAX_FILE_SIZE" by (simp add: la M)
  from WriteData_within [OF 0(1,2) ane(1) fa] wa have
    1: "r1 = int (length a)" "filling d1 w1 a" "calm w1" "grows d0 w0 d1 w1" by auto
  have fb: "length a + length b \<le> unat MAX_FILE_SIZE" by (simp add: la lb M)
  from WriteData_within [OF 1(2,3) ane(2) fb] wb have
    2: "r2 = int (length b)" "filling d2 w2 (a @ b)" "calm w2" "grows d1 w1 d2 w2" by auto
  note g02 = grows_trans [OF 1(4) 2(4)]
  note at2 = grows_at_file [OF g02 0(3)]
  have al2: "unat BUFFER_SIZE dvd length (a @ b)" using B(3) by (simp add: la lb)
  note A2 = filling_aligned [OF 2(2) al2]
  from at2 have p2: "mCurrentFilePath d2 = dir @ n0 @ ''.tmp''" "mCurrentFilename d2 = n0"
    "mDumpDirectory d2 = dir"
    by (simp_all add: at_file_def n0_def)
  from g02 have m2: "manager w2 = manager w0"
    "filter is_finalize_event (trace w2) = filter is_finalize_event (trace w0)"
    "\<And>p. p \<noteq> dir @ n0 @ ''.tmp'' \<Longrightarrow> files w2 p = files w0 p"
    using 0(3) by (simp_all add: grows_def at_file_def n0_def)
  have s2: "unat (mCurrentFileSize d2) = 80 * MiB" using A2(2) by (simp add: la lb)
  then have "unat (mCurrentFileSize d2) < unat MAX_FILE_SIZE" using Mpos by (simp add: M)
  then have lt2: "mCurrentFileSize d2 < MAX_FILE_SIZE" by (simp add: word_less_nat_alt)
  from 2(2) have op2: "is_open (mFile d2)" by (simp add: filling_def)
  show "r1 = int (40 * MiB) \<and> r2 = int (40 * MiB) \<and> r3 = int (40 * MiB)"
    and "manager w3 = (manager w)\<lparr>mCompletedFiles := mCompletedFiles (manager w) @ [n0]\<rparr> \<and>
         filter is_finalize_event (trace w3) =
           filter is_finalize_event (trace w) @
             [EvRename (dir @ n0 @ ''.tmp'') (dir @ n0), EvLogcat (''AUDIO_DUMP_READY: '' @ n0)] \<and>
         (\<forall>p. p \<noteq> mQueueFilePath (manager w) \<longrightarrow>
            files w3 p =
              (if p = dir @ n1 @ ''.tmp'' then Some (drop (20 * MiB) x)
               else if p = dir @ n0 then Some (a @ b @ take (20 * MiB) x)
               else if p = dir @ n0 @ ''.tmp'' then None
               else files w p)) \<and>
         mIsValid d3 \<and> is_open (mFile d3) \<and> mCurrentFilePath d3 = dir @ n1 @ ''.tmp'' \<and>
         mBufferOffset d3 = 0 \<and> unat (mCurrentFileSize d3) = 20 * MiB"
    and "manager w4 = (manager w)\<lparr>mCompletedFiles := mCompletedFiles (manager w) @ [n0, n1]\<rparr> \<and>
         filter is_finalize_event (trace w4) =
           filter is_finalize_event (trace w) @
             [EvRename (dir @ n0 @ ''.tmp'') (dir @ n0), EvLogcat (''AUDIO_DUMP_READY: '' @ n0),
              EvRename (dir @ n1 @ ''.tmp'') (dir @ n1), EvLogcat (''AUDIO_DUMP_READY: '' @ n1)] \<and>
         (\<forall>p. p \<noteq> mQueueFilePath (manager w) \<longrightarrow>
            files w4 p =
              (if p = dir @ n1 then Some (drop (20 * MiB) x)
               else if p = dir @ n1 @ ''.tmp'' then None
               else if p = dir @ n0 then Some (a @ b @ take (20 * MiB) x)
               else if p = dir @ n0 @ ''.tmp'' then None
               else files w p)) \<and>
         \<not> mIsValid d4 \<and> \<not> is_open (mFile d4)"
  proof -
    have over: "unat MAX_FILE_SIZE < length (a @ b) + length x"
      using Mpos by (simp add: la lb lc M)
    have under: "length (a @ b) + length x \<le> 2 * unat MAX_FILE_SIZE"
      by (simp add: la lb lc M)
    have k: "unat MAX_FILE_SIZE - length (a @ b) = 20 * MiB" by (simp add: la lb M)
    from WriteData_crossing [OF 2(2,3) at2 fit over under, unfolded k] wx obtain wc where
      3: "r3 = int (length x)"
      "finalized d2 w2 ((a @ b) @ take (20 * MiB) x) wc"
      "filling d3 w3 (drop (20 * MiB) x)" "calm w3" "at_file d3 type dir ts c (0 + 1)"
      "manager w3 = manager wc"
      "filter is_finalize_event (trace w3) = filter is_finalize_event (trace wc)"
      "\<forall>p. p \<noteq> dir @ pcm_name type ts c (0 + 1) @ ''.tmp'' \<longrightarrow> files w3 p = files wc p"
      by auto
    from 1(1) 2(1) 3(1) show "r1 = int (40 * MiB) \<and> r2 = int (40 * MiB) \<and> r3 = int (40 * MiB)"
      by (simp add: la lb lc)
    have lx: "length (drop (20 * MiB) x) = 20 * MiB" by (simp add: lc)
    have al3: "unat BUFFER_SIZE dvd length (drop (20 * MiB) x)" using B(1) by (simp only: lx)
    note A3 = filling_aligned [OF 3(3) al3]
    from 3(5) have p3: "mCurrentFilePath d3 = dir @ n1 @ ''.tmp''" "mCurrentFilename d3 = n1"
      "mDumpDirectory d3 = dir"
      by (simp_all add: at_file_def n1_def)
    from 3(3) have st3: "mIsValid d3" "is_open (mFile d3)" by (simp_all add: filling_def)
    from 3(2) have mc: "manager wc = (manager w)\<lparr>mCompletedFiles :=
                         mCompletedFiles (manager w) @ [n0]\<rparr>"
      and tc: "filter is_finalize_event (trace wc) =
                 filter is_finalize_event (trace w) @
                   [EvRename (dir @ n0 @ ''.tmp'') (dir @ n0),
                    EvLogcat (''AUDIO_DUMP_READY: '' @ n0)]"
      and fcw: "\<And>p. p \<noteq> mQueueFilePath (manager w) \<Longrightarrow>
                 files wc p = (((files w2)(dir @ n0 @ ''.tmp'' := None))
                                 (dir @ n0 \<mapsto> a @ b @ take (20 * MiB) x)) p"
      by (simp_all add: finalized_def p2 m2(1,2) 0(4,5))
    note dn = pcm_name_distinct(2) [of dir type ts c]
    have fw: "files wc p = (if p = dir @ n0 then Some (a @ b @ take (20 * MiB) x)
                            else if p = dir @ n0 @ ''.tmp'' then None else files w p)"
      if "p \<noteq> mQueueFilePath (manager w)" for p
      using fcw [OF that] m2(3) [of p] dn [of 0] by (simp add: 0(6) n0_def)
    have f3: "files w3 p =
              (if p = dir @ n1 @ ''.tmp'' then Some (drop (20 * MiB) x)
               else if p = dir @ n0 then Some (a @ b @ take (20 * MiB) x)
               else if p = dir @ n0 @ ''.tmp'' then None
               else files w p)"
      if q: "p \<noteq> mQueueFilePath (manager w)" for p
    proof (cases "p = dir @ n1 @ ''.tmp''")
      case True
      with A3(3) p3(1) show ?thesis by simp
    next
      case False
      with 3(8) have "files w3 p = files wc p" by (simp add: n1_def)
      with fw [OF q] False show ?thesis by simp
    qed
    show "manager w3 = (manager w)\<lparr>mCompletedFiles := mCompletedFiles (manager w) @ [n0]\<rparr> \<and>
         filter is_finalize_event (trace w3) =
           filter is_finalize_event (trace w) @
             [EvRename (dir @ n0 @ ''.tmp'') (dir @ n0), EvLogcat (''AUDIO_DUMP_READY: '' @ n0)] \<and>
         (\<forall>p. p \<noteq> mQueueFilePath (manager w) \<longrightarrow>
            files w3 p =
              (if p = dir @ n1 @ ''.tmp'' then Some (drop (20 * MiB) x)
               else if p = dir @ n0 then Some (a @ b @ take (20 * MiB) x)
               else if p = dir @ n0 @ ''.tmp'' then None
               else files w p)) \<and>
         mIsValid d3 \<and> is_open (mFile d3) \<and> mCurrentFilePath d3 = dir @ n1 @ ''.tmp'' \<and>
         mBufferOffset d3 = 0 \<and> unat (mCurrentFileSize d3) = 20 * MiB"
      using f3 st3 p3(1) A3(1,2) lx by (simp add: 3(6,7) mc tc)
    have ne3: "drop (20 * MiB) x \<noteq> []" using lx Mpos by auto
    from ForceClose_filling [OF 3(3) ne3 3(4)] fc obtain
      F: "finalized d3 w3 (drop (20 * MiB) x) w4" "\<not> mIsValid d4" "\<not> is_open (mFile d4)"
      by auto
    have q3: "mQueueFilePath (manager w3) = mQueueFilePath (manager w)"
      by (simp add: 3(6) mc)
    from F(1) have m4: "manager w4 = (manager w3)\<lparr>mCompletedFiles :=
                         mCompletedFiles (manager w3) @ [n1]\<rparr>"
      and t4: "filter is_finalize_event (trace w4) =
                 filter is_finalize_event (trace w3) @
                   [EvRename (dir @ n1 @ ''.tmp'') (dir @ n1),
                    EvLogcat (''AUDIO_DUMP_READY: '' @ n1)]"
      and f4w: "\<And>p. p \<noteq> mQueueFilePath (manager w) \<Longrightarrow>
                 files w4 p = (((files w3)(dir @ n1 @ ''.tmp'' := None))
                                 (dir @ n1 \<mapsto> drop (20 * MiB) x)) p"
      by (simp_all add: finalized_def p3 q3)
    have f4: "files w4 p =
              (if p = dir @ n1 then Some (drop (20 * MiB) x)
               else if p = dir @ n1 @ ''.tmp'' then None
               else if p = dir @ n0 then Some (a @ b @ take (20 * MiB) x)
               else if p = dir @ n0 @ ''.tmp'' then None
               else files w p)"
      if q: "p \<noteq> mQueueFilePath (manager w)" for p
      using f4w [OF q] f3 [OF q] dn [of 1] by (simp add: n1_def)
    show "manager w4 = (manager w)\<lparr>mCompletedFiles := mCompletedFiles (manager w) @ [n0, n1]\<rparr> \<and>
         filter is_finalize_event (trace w4) =
           filter is_finalize_event (trace w) @
             [EvRename (dir @ n0 @ ''.tmp'') (dir @ n0), EvLogcat (''AUDIO_DUMP_READY: '' @ n0),
              EvRename (dir @ n1 @ ''.tmp'') (dir @ n1), EvLogcat (''AUDIO_DUMP_READY: '' @ n1)] \<and>
         (\<forall>p. p \<noteq> mQueueFilePath (manager w) \<longrightarrow>
            files w4 p =
              (if p = dir @ n1 then Some (drop (20 * MiB) x)
               else if p = dir @ n1 @ ''.tmp'' then None
               else if p = dir @ n0 then Some (a @ b @ take (20 * MiB) x)
               else if p = dir @ n0 @ ''.tmp'' then None
               else files w p)) \<and>
         \<not> mIsValid d4 \<and> \<not> is_open (mFile d4)"
      using f4 F(2,3) by (simp add: m4 t4 3(6,7) mc tc)
  qed
  show "manager w2 = manager w \<and>
         filter is_finalize_event (trace w2) = filter is_finalize_event (trace w) \<and>
         is_open (mFile d2) \<and> mCurrentFilePath d2 = dir @ n0 @ ''.tmp'' \<and>
         files w2 (dir @ n0 @ ''.tmp'') = Some (a @ b) \<and>
         (\<forall>p. p \<noteq> dir @ n0 @ ''.tmp'' \<longrightarrow> files w2 p = files w p) \<and>
         unat (mCurrentFileSize d2) = 80 * MiB \<and> mCurrentFileSize d2 < MAX_FILE_SIZE"
    using A2(3) p2(1) s2 lt2 op2 m2(3) by (simp add: m2(1,2) 0(4,5) 0(6))
qed

text \<open>
  C4, as amended. In a world where no call fails, a dumper whose names fit the array of
  \<^verbatim>\<open>GenerateFilename\<close> is constructed and receives three chunks of 40 MiB, each in one
  \<^verbatim>\<open>WriteData\<close> call, followed by \<^verbatim>\<open>ForceClose\<close>. Every call returns 40 MiB. After the
  second call nothing has been finalized: the manager and the renames and notifications of
  the trace are as before, and file 0 is still open under its temp name, holding the 80 MiB
  of the first two chunks, below \<^verbatim>\<open>MAX_FILE_SIZE\<close>. The limit is reached inside the third
  call: after it, file 0 has been renamed and notified and holds exactly 100 MiB (the first
  two chunks and the first 20 MiB of the third), and file 1 is open under its temp name and
  holds the last 20 MiB of the third chunk, all of them flushed. \<^verbatim>\<open>ForceClose\<close> then
  renames and notifies file 1 with exactly these 20 MiB, and no temp file is left.
\<close>

theorem third_chunk_crosses_limit:
  assumes calm: "calm w" and fit: "length ts \<le> 209"
    and la: "length a = 40 * MiB" and lb: "length b = 40 * MiB" and lx: "length x = 40 * MiB"
    and ctor: "StreamDumper_ctor type dir ts c w = (d0, w0)"
    and wa: "WriteData d0 w0 (Some a) (of_nat (length a)) = (r1, d1, w1)"
    and wb: "WriteData d1 w1 (Some b) (of_nat (length b)) = (r2, d2, w2)"
    and wx: "WriteData d2 w2 (Some x) (of_nat (length x)) = (r3, d3, w3)"
    and fc: "ForceClose d3 w3 = (d4, w4)"
  defines "n0 \<equiv> pcm_name type ts c 0" and "n1 \<equiv> pcm_name type ts c 1"
  shows "(r1 = int (40 * MiB) \<and> r2 = int (40 * MiB) \<and> r3 = int (40 * MiB)) \<and>
         (manager w2 = manager w \<and>
          filter is_finalize_event (trace w2) = filter is_finalize_event (trace w) \<and>
          is_open (mFile d2) \<and> mCurrentFilePath d2 = dir @ n0 @ ''.tmp'' \<and>
          files w2 (dir @ n0 @ ''.tmp'') = Some (a @ b) \<and>
          (\<forall>p. p \<noteq> dir @ n0 @ ''.tmp'' \<longrightarrow> files w2 p = files w p) \<and>
          unat (mCurrentFileSize d2) = 80 * MiB \<and> mCurrentFileSize d2 < MAX_FILE_SIZE) \<and>
         (manager w3 = (manager w)\<lparr>mCompletedFiles := mCompletedFiles (manager w) @ [n0]\<rparr> \<and>
          filter is_finalize_event (trace w3) =
            filter is_finalize_event (trace w) @
              [EvRename (dir @ n0 @ ''.tmp'') (dir @ n0), EvLogcat (''AUDIO_DUMP_READY: '' @ n0)] \<and>
          (\<forall>p. p \<noteq> mQueueFilePath (manager w) \<longrightarrow>
             files w3 p =
               (if p = dir @ n1 @ ''.tmp'' then Some (drop (20 * MiB) x)
                else if p = dir @ n0 then Some (a @ b @ take (20 * MiB) x)
                else if p = dir @ n0 @ ''.tmp'' then None
                else files w p)) \<and>
          mIsValid d3 \<and> is_open (mFile d3) \<and> mCurrentFilePath d3 = dir @ n1 @ ''.tmp'' \<and>
          mBufferOffset d3 = 0 \<and> unat (mCurrentFileSize d3) = 20 * MiB) \<and>
         (manager w4 = (manager w)\<lparr>mCompletedFiles := mCompletedFiles (manager w) @ [n0, n1]\<rparr> \<and>
          filter is_finalize_event (trace w4) =
            filter is_finalize_event (trace w) @
              [EvRename (dir @ n0 @ ''.tmp'') (dir @ n0), EvLogcat (''AUDIO_DUMP_READY: '' @ n0),
               EvRename (dir @ n1 @ ''.tmp'') (dir @ n1), EvLogcat (''AUDIO_DUMP_READY: '' @ n1)] \<and>
          (\<forall>p. p \<noteq> mQueueFilePath (manager w) \<longrightarrow>
             files w4 p =
               (if p = dir @ n1 then Some (drop (20 * MiB) x)
                else if p = dir @ n1 @ ''.tmp'' then None
                else if p = dir @ n0 then Some (a @ b @ take (20 * MiB) x)
                else if p = dir @ n0 @ ''.tmp'' then None
                else files w p)) \<and>
          \<not> mIsValid d4 \<and> \<not> is_open (mFile d4))"
  unfolding n0_def n1_def
  by (intro conjI three_chunks(1) [OF calm fit la lb lx ctor wa wb wx fc, THEN conjunct1]
      three_chunks(1) [OF calm fit la lb lx ctor wa wb wx fc, THEN conjunct2, THEN conjunct1]
      three_chunks(1) [OF calm fit la lb lx ctor wa wb wx fc, THEN conjunct2, THEN conjunct2]
      three_chunks(2) [OF calm fit la lb lx ctor wa wb wx fc]
      three_chunks(3) [OF calm fit la lb lx ctor wa wb wx fc]
      three_chunks(4) [OF calm fit la lb lx ctor wa wb wx fc])

lemma sample_world_before:
  "mQueueFilePath (manager streamout_world) = ''/data/vendor/audio_dump/.queue''"
  "mCompletedFiles (manager streamout_world) = []"
  "files streamout_world = Map.empty"
  "trace streamout_world = []"
  by (simp_all add: streamout_world_def boot_world_def AudioDumpManager_ctor_def
      DEFAULT_DUMP_DIR_def QUEUE_FILE_NAME_def)

lemma sample_names:
  "DEFAULT_DUMP_DIR @ pcm_name STREAM_OUT ''20240131_235959'' 0 i @ s
     \<noteq> ''/data/vendor/audio_dump/.queue''"
  "pcm_name STREAM_OUT ''20240131_235959'' 0 0 \<noteq> pcm_name STREAM_OUT ''20240131_235959'' 0 1"
  "pcm_name STREAM_OUT ''20240131_235959'' 0 1 \<noteq> pcm_name STREAM_OUT ''20240131_235959'' 0 0"
  "pcm_name STREAM_OUT ''20240131_235959'' 0 0 @ ''.tmp'' \<noteq> pcm_name STREAM_OUT ''20240131_235959'' 0 1"
  "pcm_name STREAM_OUT ''20240131_235959'' 0 1 @ ''.tmp'' \<noteq> pcm_name STREAM_OUT ''20240131_235959'' 0 0"
  "pcm_name STREAM_OUT ''20240131_235959'' 0 0 @ ''.tmp'' \<noteq> pcm_name STREAM_OUT ''20240131_235959'' 0 1 @ ''.tmp''"
  "pcm_name STREAM_OUT ''20240131_235959'' 0 i @ ''.tmp'' \<noteq> pcm_name STREAM_OUT ''20240131_235959'' 0 i"
  by (simp_all add: DEFAULT_DUMP_DIR_def pcm_name_def dec.simps)

theorem third_chunk_crosses_limit_witness:
  "calm streamout_world \<and> length ''20240131_235959'' \<le> 209 \<and>
   length (replicate (40 * MiB) (1 :: byte)) = 40 * MiB \<and>
   length (replicate (40 * MiB) (2 :: byte)) = 40 * MiB \<and>
   length (replicate (40 * MiB) (3 :: byte)) = 40 * MiB \<and>
   StreamDumper_ctor STREAM_OUT DEFAULT_DUMP_DIR ''20240131_235959'' 0 streamout_world
     = (sample_dumper, sample_world) \<and>
   (case WriteData sample_dumper sample_world (Some (replicate (40 * MiB) 1))
           (of_nat (length (replicate (40 * MiB) (1 :: byte)))) of (r1, d1, w1) \<Rightarrow>
    case WriteData d1 w1 (Some (replicate (40 * MiB) 2))
           (of_nat (length (replicate (40 * MiB) (2 :: byte)))) of (r2, d2, w2) \<Rightarrow>
    case WriteData d2 w2 (Some (replicate (40 * MiB) 3))
           (of_nat (length (replicate (40 * MiB) (3 :: byte)))) of (r3, d3, w3) \<Rightarrow>
    case ForceClose d3 w3 of (d4, w4) \<Rightarrow>
      [r1, r2, r3] = [int (40 * MiB), int (40 * MiB), int (40 * MiB)] \<and>
      mCompletedFiles (manager w2) = [] \<and>
      mCompletedFiles (manager w3) = [pcm_name STREAM_OUT ''20240131_235959'' 0 0] \<and>
      mCompletedFiles (manager w4) =
        [pcm_name STREAM_OUT ''20240131_235959'' 0 0,
         pcm_name STREAM_OUT ''20240131_235959'' 0 1] \<and>
      files w3 (DEFAULT_DUMP_DIR @ pcm_name STREAM_OUT ''20240131_235959'' 0 0)
        = Some (replicate (40 * MiB) 1 @ replicate (40 * MiB) 2 @ replicate (20 * MiB) 3) \<and>
      files w3 (DEFAULT_DUMP_DIR @ pcm_name STREAM_OUT ''20240131_235959'' 0 1 @ ''.tmp'')
        = Some (replicate (20 * MiB) 3) \<and>
      files w4 (DEFAULT_DUMP_DIR @ pcm_name STREAM_OUT ''20240131_235959'' 0 1)
        = Some (replicate (20 * MiB) 3) \<and>
      files w4 (DEFAULT_DUMP_DIR @ pcm_name STREAM_OUT ''20240131_235959'' 0 1 @ ''.tmp'') = None)"
proof -
  let ?a = "replicate (40 * MiB) (1 :: byte)" and ?b = "replicate (40 * MiB) (2 :: byte)"
    and ?x = "replicate (40 * MiB) (3 :: byte)"
  let ?n0 = "pcm_name STREAM_OUT ''20240131_235959'' 0 0"
    and ?n1 = "pcm_name STREAM_OUT ''20240131_235959'' 0 1"
  obtain r1 d1 w1 where
    wa: "WriteData sample_dumper sample_world (Some ?a) (of_nat (length ?a)) = (r1, d1, w1)"
    by (cases "WriteData sample_dumper sample_world (Some ?a) (of_nat (length ?a))")
  obtain r2 d2 w2 where wb: "WriteData d1 w1 (Some ?b) (of_nat (length ?b)) = (r2, d2, w2)"
    by (cases "WriteData d1 w1 (Some ?b) (of_nat (length ?b))")
  obtain r3 d3 w3 where wx: "WriteData d2 w2 (Some ?x) (of_nat (length ?x)) = (r3, d3, w3)"
    by (cases "WriteData d2 w2 (Some ?x) (of_nat (length ?x))")
  obtain d4 w4 where fc: "ForceClose d3 w3 = (d4, w4)" by (cases "ForceClose d3 w3")
  have l: "length ''20240131_235959'' \<le> 209" by simp
  have la: "length ?a = 40 * MiB" and lb: "length ?b = 40 * MiB" and lx: "length ?x = 40 * MiB"
    by simp_all
  note t = third_chunk_crosses_limit [OF streamout_world_calm l la lb lx sample_ctor wa wb wx fc]
  note t1 = t [THEN conjunct1]
  note t2 = t [THEN conjunct2, THEN conjunct1]
  note t3 = t [THEN conjunct2, THEN conjunct2, THEN conjunct1]
  note t4 = t [THEN conjunct2, THEN conjunct2, THEN conjunct2]
  have tk: "take (20 * MiB) ?x = replicate (20 * MiB) 3" "drop (20 * MiB) ?x = replicate (20 * MiB) 3"
    by simp_all
  from t1 have rs: "[r1, r2, r3] = [int (40 * MiB), int (40 * MiB), int (40 * MiB)]" by simp
  from t2 have m2: "mCompletedFiles (manager w2) = []" by (simp add: sample_world_before)
  from t3 have m3: "mCompletedFiles (manager w3) = [?n0]" by (simp add: sample_world_before)
  from t4 have m4: "mCompletedFiles (manager w4) = [?n0, ?n1]" by (simp add: sample_world_before)
  note f3 = t3 [THEN conjunct2, THEN conjunct2, THEN conjunct1, THEN spec, THEN mp,
      unfolded sample_world_before, OF sample_names(1)]
  note f4 = t4 [THEN conjunct2, THEN conjunct2, THEN conjunct1, THEN spec, THEN mp,
      unfolded sample_world_before, OF sample_names(1)]
  have f30: "files w3 (DEFAULT_DUMP_DIR @ ?n0) = Some (?a @ ?b @ replicate (20 * MiB) 3)"
    using f3 [of 0 "[]"] sample_names by (simp add: tk)
  have f31: "files w3 (DEFAULT_DUMP_DIR @ ?n1 @ ''.tmp'') = Some (replicate (20 * MiB) 3)"
    using f3 [of 1 "''.tmp''"] by (simp add: tk)
  have f41: "files w4 (DEFAULT_DUMP_DIR @ ?n1) = Some (replicate (20 * MiB) 3)"
    using f4 [of 1 "[]"] by (simp add: tk)
  have f4t: "files w4 (DEFAULT_DUMP_DIR @ ?n1 @ ''.tmp'') = None"
    using f4 [of 1 "''.tmp''"] sample_names by simp
  show ?thesis
    unfolding wa wb wx fc prod.case
    by (intro conjI streamout_world_calm l la lb lx sample_ctor rs m2 m3 m4 f30 f31 f41 f4t)
qed

text \<open>
  C4 as stated fails: file 0 is not finalized by the second chunk. After two writes of
  40 MiB on the sample dumper no file has been completed, the trace holds no rename and
  no notification, no file has the final name of file 0, and file 0 is open under its temp
  name with 80 MiB, below \<^verbatim>\<open>MAX_FILE_SIZE\<close>.
\<close>

theorem second_chunk_finalizes_nothing_counterexample:
  "case WriteData sample_dumper sample_world (Some (replicate (40 * MiB) 1))
          (of_nat (length (replicate (40 * MiB) (1 :: byte)))) of (r1, d1, w1) \<Rightarrow>
   case WriteData d1 w1 (Some (replicate (40 * MiB) 2))
          (of_nat (length (replicate (40 * MiB) (2 :: byte)))) of (r2, d2, w2) \<Rightarrow>
     r1 = int (40 * MiB) \<and> r2 = int (40 * MiB) \<and>
     mCompletedFiles (manager w2) = [] \<and>
     filter is_finalize_event (trace w2) = [] \<and>
     files w2 (DEFAULT_DUMP_DIR @ pcm_name STREAM_OUT ''20240131_235959'' 0 0) = None \<and>
     files w2 (DEFAULT_DUMP_DIR @ pcm_name STREAM_OUT ''20240131_235959'' 0 0 @ ''.tmp'')
       = Some (replicate (40 * MiB) 1 @ replicate (40 * MiB) 2) \<and>
     is_open (mFile d2) \<and>
     mCurrentFilePath d2 = DEFAULT_DUMP_DIR @ pcm_name STREAM_OUT ''20240131_235959'' 0 0 @ ''.tmp'' \<and>
     unat (mCurrentFileSize d2) = 80 * MiB \<and> mCurrentFileSize d2 < MAX_FILE_SIZE"
proof -
  let ?a = "replicate (40 * MiB) (1 :: byte)" and ?b = "replicate (40 * MiB) (2 :: byte)"
    and ?x = "replicate (40 * MiB) (3 :: byte)"
  let ?n0 = "pcm_name STREAM_OUT ''20240131_235959'' 0 0"
  obtain r1 d1 w1 where
    wa: "WriteData sample_dumper sample_world (Some ?a) (of_nat (length ?a)) = (r1, d1, w1)"
    by (cases "WriteData sample_dumper sample_world (Some ?a) (of_nat (length ?a))")
  obtain r2 d2 w2 where wb: "WriteData d1 w1 (Some ?b) (of_nat (length ?b)) = (r2, d2, w2)"
    by (cases "WriteData d1 w1 (Some ?b) (of_nat (length ?b))")
  obtain r3 d3 w3 where wx: "WriteData d2 w2 (Some ?x) (of_nat (length ?x)) = (r3, d3, w3)"
    by (cases "WriteData d2 w2 (Some ?x) (of_nat (length ?x))")
  obtain d4 w4 where fc: "ForceClose d3 w3 = (d4, w4)" by (cases "ForceClose d3 w3")
  have l: "length ''20240131_235959'' \<le> 209" by simp
  have la: "length ?a = 40 * MiB" and lb: "length ?b = 40 * MiB" and lx: "length ?x = 40 * MiB"
    by simp_all
  note t1 = three_chunks(1) [OF streamout_world_calm l la lb lx sample_ctor wa wb wx fc]
  note t2 = three_chunks(2) [OF streamout_world_calm l la lb lx sample_ctor wa wb wx fc]
  from t1 have r: "r1 = int (40 * MiB)" "r2 = int (40 * MiB)" by simp_all
  from t2 have m: "mCompletedFiles (manager w2) = []"
    and e: "filter is_finalize_event (trace w2) = []"
    and o: "is_open (mFile d2)"
    and p: "mCurrentFilePath d2 = DEFAULT_DUMP_DIR @ ?n0 @ ''.tmp''"
    and ft: "files w2 (DEFAULT_DUMP_DIR @ ?n0 @ ''.tmp'') = Some (?a @ ?b)"
    and s: "unat (mCurrentFileSize d2) = 80 * MiB" "mCurrentFileSize d2 < MAX_FILE_SIZE"
    by (simp_all add: sample_world_before)
  from t2 have "files w2 (DEFAULT_DUMP_DIR @ ?n0) = files streamout_world (DEFAULT_DUMP_DIR @ ?n0)"
    using sample_names(7) [of 0] by simp
  then have ff: "files w2 (DEFAULT_DUMP_DIR @ ?n0) = None" by (simp add: sample_world_before)
  show ?thesis
    unfolding wa wb prod.case
    by (intro conjI r m e ff ft o p s)
qed

end
